theory Spec2Isabelle
  imports Main "HOL-Library.Sublist"
begin

section \<open>Python strings\<close>

text \<open>
  A Python \<open>str\<close> is modelled as a \<open>string\<close> whose characters are the code points
  below 256 (ASCII and Latin-1). On these, \<open>str.lower\<close> maps one character to one
  character, and \<open>str.strip\<close> / \<open>str.split\<close> without arguments use the white space
  characters U+0009..U+000D, U+001C..U+0020, U+0085 and U+00A0.
\<close>

definition is_space :: "char \<Rightarrow> bool" where
  "is_space c =
     (let n = (of_char c :: nat)
      in (9 \<le> n \<and> n \<le> 13) \<or> (28 \<le> n \<and> n \<le> 32) \<or> n = 133 \<or> n = 160)"

definition lower_char :: "char \<Rightarrow> char" where
  "lower_char c =
     (let n = (of_char c :: nat)
      in if (65 \<le> n \<and> n \<le> 90) \<or> (192 \<le> n \<and> n \<le> 214) \<or> (216 \<le> n \<and> n \<le> 222)
         then char_of (n + 32) else c)"

definition str_lower :: "string \<Rightarrow> string" where
  "str_lower s = map lower_char s"

definition str_strip :: "string \<Rightarrow> string" where
  "str_strip s = rev (dropWhile is_space (rev (dropWhile is_space s)))"

text \<open>
  \<open>s.split()\<close>: runs of white space separate the words, and no word is empty.
  \<open>split_from cur s\<close> scans \<open>s\<close> with the word read so far in \<open>cur\<close>.
\<close>

fun split_from :: "string \<Rightarrow> string \<Rightarrow> string list" where
  "split_from cur [] = (if cur = [] then [] else [cur])"
| "split_from cur (c # cs) =
     (if is_space c
      then (if cur = [] then split_from [] cs else cur # split_from [] cs)
      else split_from (cur @ [c]) cs)"

definition str_split :: "string \<Rightarrow> string list" where
  "str_split s = split_from [] s"

text \<open>\<open>" ".join(ws)\<close>.\<close>

fun str_join :: "string list \<Rightarrow> string" where
  "str_join [] = []"
| "str_join [w] = w"
| "str_join (w # v # ws) = w @ '' '' @ str_join (v # ws)"

definition is_digit :: "char \<Rightarrow> bool" where
  "is_digit c = (let n = (of_char c :: nat) in 48 \<le> n \<and> n \<le> 57)"

section \<open>Python values, objects and the context\<close>

datatype error = KeyError | AttributeError | TypeError | IndexError | ValueError

text \<open>
  The values an object's attributes hold: \<open>None\<close>, booleans, integers, strings and
  lists of values. An object is a Python dict from attribute names to values; the
  object id is under the key \<open>"id"\<close>.
\<close>

datatype pyval = PNone | PBool bool | PInt int | PStr string | PList "pyval list"

type_synonym obj = "string \<rightharpoonup> pyval"

text \<open>
  The context dict of \<open>get_script_context\<close>: the keys \<open>"user"\<close> and \<open>"room"\<close> hold one
  object each, \<open>"exits"\<close>, \<open>"users"\<close> and \<open>"things"\<close> hold lists of objects.
\<close>

record "context" =
  user :: obj
  room :: obj
  exits :: "obj list"
  users :: "obj list"
  things :: "obj list"

text \<open>
  The constants of the module \<open>textsmith.defaults\<close> that \<open>logic.py\<close> reads. The module
  is not part of the sources at hand, so its constants are parameters of the model.
\<close>

record defaults =
  USER_ALIASES :: "string list"
  ROOM_ALIASES :: "string list"
  NAME :: string
  ALIAS :: string
  IS_SCRIPT :: string

text \<open>Modelled from the spec: \<open>defaults.MATCH_OBJECT_ID\<close>, a compiled regular expression
  that is missing from the sources. The spec describes it as the pattern "\<open>#\<close> followed
  by digits"; \<open>MATCH_OBJECT_ID w\<close> is the truth value of \<open>MATCH_OBJECT_ID.match(w)\<close>.
\<close>

definition MATCH_OBJECT_ID :: "string \<Rightarrow> bool" where
  "MATCH_OBJECT_ID w =
     (case w of [] \<Rightarrow> False | c # ds \<Rightarrow> c = CHR ''#'' \<and> ds \<noteq> [] \<and> list_all is_digit ds)"

section \<open>matches_name\<close>

text \<open>
  \<open>alias.lower()\<close> for one element of the alias list: only a string has the method.
\<close>

fun lower_val :: "pyval \<Rightarrow> error + string" where
  "lower_val (PStr s) = Inr (str_lower s)"
| "lower_val _ = Inl AttributeError"

text \<open>\<open>[alias.lower() for alias in vs]\<close>, stopping at the first element that raises.\<close>

fun lower_all :: "pyval list \<Rightarrow> error + string list" where
  "lower_all [] = Inr []"
| "lower_all (v # vs) =
     (case lower_val v of
        Inl e \<Rightarrow> Inl e
      | Inr s \<Rightarrow> (case lower_all vs of Inl e \<Rightarrow> Inl e | Inr ss \<Rightarrow> Inr (s # ss)))"

text \<open>
  \<open>obj.get(defaults.NAME, "").lower()\<close>: the default applies only when the key is
  absent; a value that is not a string has no \<open>lower\<close>.
\<close>

definition get_obj_name :: "defaults \<Rightarrow> obj \<Rightarrow> error + string" where
  "get_obj_name d ob =
     (case ob (NAME d) of
        None \<Rightarrow> Inr (str_lower [])
      | Some (PStr s) \<Rightarrow> Inr (str_lower s)
      | Some _ \<Rightarrow> Inl AttributeError)"

text \<open>
  \<open>[alias.lower() for alias in obj.get(defaults.ALIAS, [])]\<close>: a list is iterated
  element by element, a string character by character, and the other values are not
  iterable.
\<close>

definition get_aliases :: "defaults \<Rightarrow> obj \<Rightarrow> error + string list" where
  "get_aliases d ob =
     (case ob (ALIAS d) of
        None \<Rightarrow> Inr []
      | Some (PList vs) \<Rightarrow> lower_all vs
      | Some (PStr s) \<Rightarrow> Inr (map (\<lambda>c. str_lower [c]) s)
      | Some _ \<Rightarrow> Inl TypeError)"

definition matches_name :: "defaults \<Rightarrow> string \<Rightarrow> obj \<Rightarrow> error + bool" where
  "matches_name d name ob =
     (let name' = str_lower name
      in case get_obj_name d ob of
           Inl e \<Rightarrow> Inl e
         | Inr obj_name \<Rightarrow>
             if obj_name = name' then Inr True
             else (case get_aliases d ob of
                     Inl e \<Rightarrow> Inl e
                   | Inr aliases \<Rightarrow> if name' \<in> set aliases then Inr True else Inr False))"

section \<open>match_object\<close>

definition candidate_objects :: "context \<Rightarrow> obj list" where
  "candidate_objects ctx = [user ctx, room ctx] @ exits ctx @ users ctx @ things ctx"

text \<open>
  \<open>int(words[0][1:])\<close> on the digits that the object id pattern has let through.
\<close>

definition digit_val :: "char \<Rightarrow> int" where
  "digit_val c = int (of_char c) - 48"

definition py_int :: "string \<Rightarrow> error + int" where
  "py_int ds =
     (if ds \<noteq> [] \<and> list_all is_digit ds
      then Inr (foldl (\<lambda>a c. 10 * a + digit_val c) 0 ds)
      else Inl ValueError)"

text \<open>
  \<open>obj["id"] == object_id\<close> for an integer \<open>object_id\<close>: an integer is compared by
  value, \<open>True\<close> and \<open>False\<close> count as 1 and 0, any other value is unequal.
\<close>

fun eq_int :: "pyval \<Rightarrow> int \<Rightarrow> bool" where
  "eq_int (PInt i) n = (i = n)"
| "eq_int (PBool b) n = ((if b then 1 else 0) = n)"
| "eq_int _ n = False"

text \<open>
  \<open>[obj for obj in candidate_objects if obj["id"] == object_id]\<close>: an object without
  the key \<open>"id"\<close> raises KeyError.
\<close>

fun with_id :: "int \<Rightarrow> obj list \<Rightarrow> error + obj list" where
  "with_id n [] = Inr []"
| "with_id n (ob # obs) =
     (case ob ''id'' of
        None \<Rightarrow> Inl KeyError
      | Some v \<Rightarrow>
          (case with_id n obs of
             Inl e \<Rightarrow> Inl e
           | Inr r \<Rightarrow> Inr (if eq_int v n then ob # r else r)))"

text \<open>
  The inner loop \<open>for obj in candidate_objects\<close>: every object that matches the name
  is appended to \<open>matched_objects\<close>.
\<close>

fun append_matches :: "defaults \<Rightarrow> string \<Rightarrow> obj list \<Rightarrow> obj list \<Rightarrow> error + obj list" where
  "append_matches d name [] matched = Inr matched"
| "append_matches d name (ob # obs) matched =
     (case matches_name d name ob of
        Inl e \<Rightarrow> Inl e
      | Inr b \<Rightarrow> append_matches d name obs (if b then matched @ [ob] else matched))"

text \<open>
  The outer loop \<open>for word in words\<close>, with the loop state \<open>matched_objects\<close> and
  \<open>word_list\<close>; the first equation is the \<open>return\<close> after the loop.
\<close>

fun match_words ::
  "defaults \<Rightarrow> obj list \<Rightarrow> obj list \<Rightarrow> string list \<Rightarrow> string list \<Rightarrow> error + obj list" where
  "match_words d cands matched word_list [] = Inr matched"
| "match_words d cands matched word_list (word # rest) =
     (let word_list' = word_list @ [word];
          name = str_join word_list'
      in case append_matches d name cands matched of
           Inl e \<Rightarrow> Inl e
         | Inr matched' \<Rightarrow>
             if matched' \<noteq> [] then Inr matched'
             else match_words d cands matched' word_list' rest)"

definition match_object :: "defaults \<Rightarrow> string \<Rightarrow> context \<Rightarrow> error + obj list" where
  "match_object d identifier ctx =
     (let ident = str_lower (str_strip identifier)
      in if ident = [] then Inr []
         else
           (let words = str_split ident
            in case words of
                 [] \<Rightarrow> Inl IndexError
               | w0 # _ \<Rightarrow>
                   if w0 \<in> set (USER_ALIASES d) then Inr [user ctx]
                   else if w0 \<in> set (ROOM_ALIASES d) then Inr [room ctx]
                   else
                     (let cands = candidate_objects ctx
                      in if MATCH_OBJECT_ID w0
                         then (case py_int (tl w0) of
                                 Inl e \<Rightarrow> Inl e
                               | Inr object_id \<Rightarrow> with_id object_id cands)
                         else match_words d cands [] [] words)))"

section \<open>get_attribute_value\<close>










section \<open>The resolver's contract in the spec's words\<close>

text \<open>
  Case-insensitive equality of two strings: the same length, and at every position
  the same character up to its case.
\<close>

definition caseless_eq :: "string \<Rightarrow> string \<Rightarrow> bool" where
  "caseless_eq a b = list_all2 (\<lambda>x y. lower_char x = lower_char y) a b"

text \<open>
  An object's display name (empty when the object has none) and its alias strings.
\<close>

definition display_name :: "defaults \<Rightarrow> obj \<Rightarrow> string" where
  "display_name d ob = (case ob (NAME d) of Some (PStr s) \<Rightarrow> s | _ \<Rightarrow> [])"

fun the_strs :: "pyval list \<Rightarrow> string list" where
  "the_strs [] = []"
| "the_strs (PStr s # vs) = s # the_strs vs"
| "the_strs (_ # vs) = the_strs vs"

definition alias_list :: "defaults \<Rightarrow> obj \<Rightarrow> string list" where
  "alias_list d ob = (case ob (ALIAS d) of Some (PList vs) \<Rightarrow> the_strs vs | _ \<Rightarrow> [])"

text \<open>
  The spec's \<open>matches_name\<close>: the name equals the display name, or is one of the
  aliases, in both cases up to case.
\<close>

definition name_matches :: "defaults \<Rightarrow> string \<Rightarrow> obj \<Rightarrow> bool" where
  "name_matches d name ob =
     (caseless_eq name (display_name d ob) \<or> list_ex (caseless_eq name) (alias_list d ob))"

text \<open>
  An object as the data model describes it, as far as names go: the display name, when
  there is one, is a string, and the aliases, when there are any, are a list of strings.
\<close>

fun is_str :: "pyval \<Rightarrow> bool" where
  "is_str (PStr s) = True"
| "is_str _ = False"

definition named_obj :: "defaults \<Rightarrow> obj \<Rightarrow> bool" where
  "named_obj d ob =
     ((case ob (NAME d) of None \<Rightarrow> True | Some v \<Rightarrow> is_str v) \<and>
      (case ob (ALIAS d) of None \<Rightarrow> True | Some (PList vs) \<Rightarrow> list_all is_str vs | Some _ \<Rightarrow> False))"


text \<open>The candidates that match the prefix of \<open>k\<close> words, in the order of the pool.\<close>

definition prefix_matches :: "defaults \<Rightarrow> string list \<Rightarrow> context \<Rightarrow> nat \<Rightarrow> obj list" where
  "prefix_matches d ws ctx k =
     filter (name_matches d (str_join (take k ws))) (candidate_objects ctx)"


section \<open>The resolver on a store of mutable objects\<close>

text \<open>
  Python passes dicts and lists by reference and both can be changed in place. To state
  what the resolver leaves alone, this section runs the same two functions on a store:
  the context dict, the objects and the lists of objects are cells at addresses, a list
  display or comprehension whose list is returned or changed allocates a new cell, and
  \<open>append\<close> overwrites the cell of its list. Strings and the attribute values inside an
  object are values. The lists \<open>words\<close> and \<open>candidate_objects\<close>, which the function
  builds, never changes and never returns, stay values as well. Where Python would find
  an object of another type than the code expects, the model raises TypeError.
\<close>

type_synonym addr = nat

datatype cell =
    Dict obj
  | Context "string \<rightharpoonup> addr"
  | Objs "addr list"
  | Strs "string list"

record store =
  cells :: "addr \<rightharpoonup> cell"
  lim :: addr

definition new :: "cell \<Rightarrow> store \<Rightarrow> addr \<times> store" where
  "new c s = (lim s, s\<lparr>cells := (cells s)(lim s \<mapsto> c), lim := Suc (lim s)\<rparr>)"

definition append_obj :: "addr \<Rightarrow> addr \<Rightarrow> store \<Rightarrow> error + store" where
  "append_obj l x s =
     (case cells s l of
        Some (Objs xs) \<Rightarrow> Inr (s\<lparr>cells := (cells s)(l \<mapsto> Objs (xs @ [x]))\<rparr>)
      | _ \<Rightarrow> Inl TypeError)"

definition append_str :: "addr \<Rightarrow> string \<Rightarrow> store \<Rightarrow> error + store" where
  "append_str l x s =
     (case cells s l of
        Some (Strs xs) \<Rightarrow> Inr (s\<lparr>cells := (cells s)(l \<mapsto> Strs (xs @ [x]))\<rparr>)
      | _ \<Rightarrow> Inl TypeError)"

text \<open>\<open>matches_name\<close>; the list \<open>aliases\<close> is a new cell.\<close>

definition matches_name_st :: "defaults \<Rightarrow> string \<Rightarrow> addr \<Rightarrow> store \<Rightarrow> (error + bool) \<times> store" where
  "matches_name_st d name a s =
     (case cells s a of
        Some (Dict ob) \<Rightarrow>
          (let name' = str_lower name
           in case get_obj_name d ob of
                Inl e \<Rightarrow> (Inl e, s)
              | Inr obj_name \<Rightarrow>
                  if obj_name = name' then (Inr True, s)
                  else (case get_aliases d ob of
                          Inl e \<Rightarrow> (Inl e, s)
                        | Inr aliases \<Rightarrow>
                            (let (l, s') = new (Strs aliases) s
                             in if name' \<in> set aliases then (Inr True, s') else (Inr False, s'))))
      | _ \<Rightarrow> (Inl TypeError, s))"

text \<open>The test of the comprehension \<open>[obj for obj in candidate_objects if obj["id"] == object_id]\<close>.\<close>

fun with_id_st :: "int \<Rightarrow> addr list \<Rightarrow> store \<Rightarrow> error + addr list" where
  "with_id_st n [] s = Inr []"
| "with_id_st n (a # as) s =
     (case cells s a of
        Some (Dict ob) \<Rightarrow>
          (case ob ''id'' of
             None \<Rightarrow> Inl KeyError
           | Some v \<Rightarrow>
               (case with_id_st n as s of
                  Inl e \<Rightarrow> Inl e
                | Inr r \<Rightarrow> Inr (if eq_int v n then a # r else r)))
      | _ \<Rightarrow> Inl TypeError)"

text \<open>The inner loop: \<open>matched_objects\<close> is the list at the address \<open>m\<close>.\<close>

fun append_matches_st ::
  "defaults \<Rightarrow> string \<Rightarrow> addr list \<Rightarrow> addr \<Rightarrow> store \<Rightarrow> (error + unit) \<times> store" where
  "append_matches_st d name [] m s = (Inr (), s)"
| "append_matches_st d name (a # as) m s =
     (case matches_name_st d name a s of
        (Inl e, s') \<Rightarrow> (Inl e, s')
      | (Inr b, s') \<Rightarrow>
          if b
          then (case append_obj m a s' of
                  Inl e \<Rightarrow> (Inl e, s')
                | Inr s'' \<Rightarrow> append_matches_st d name as m s'')
          else append_matches_st d name as m s')"

text \<open>
  The outer loop: \<open>matched_objects\<close> is the list at \<open>m\<close>, \<open>word_list\<close> the list at \<open>wl\<close>;
  the function returns the address \<open>m\<close>.
\<close>

fun match_words_st ::
  "defaults \<Rightarrow> addr list \<Rightarrow> addr \<Rightarrow> addr \<Rightarrow> string list \<Rightarrow> store \<Rightarrow> (error + addr) \<times> store" where
  "match_words_st d cands m wl [] s = (Inr m, s)"
| "match_words_st d cands m wl (word # rest) s =
     (case append_str wl word s of
        Inl e \<Rightarrow> (Inl e, s)
      | Inr s1 \<Rightarrow>
          (case cells s1 wl of
             Some (Strs word_list) \<Rightarrow>
               (let name = str_join word_list
                in case append_matches_st d name cands m s1 of
                     (Inl e, s2) \<Rightarrow> (Inl e, s2)
                   | (Inr _, s2) \<Rightarrow>
                       (case cells s2 m of
                          Some (Objs matched) \<Rightarrow>
                            if matched \<noteq> [] then (Inr m, s2)
                            else match_words_st d cands m wl rest s2
                        | _ \<Rightarrow> (Inl TypeError, s2)))
           | _ \<Rightarrow> (Inl TypeError, s1)))"

text \<open>\<open>context[key]\<close> for a key that holds one object, and for a key that holds a list.\<close>

definition lookup_obj :: "(string \<rightharpoonup> addr) \<Rightarrow> string \<Rightarrow> error + addr" where
  "lookup_obj cx key = (case cx key of None \<Rightarrow> Inl KeyError | Some a \<Rightarrow> Inr a)"

definition lookup_list :: "store \<Rightarrow> (string \<rightharpoonup> addr) \<Rightarrow> string \<Rightarrow> error + addr list" where
  "lookup_list s cx key =
     (case cx key of
        None \<Rightarrow> Inl KeyError
      | Some a \<Rightarrow> (case cells s a of Some (Objs as) \<Rightarrow> Inr as | _ \<Rightarrow> Inl TypeError))"

text \<open>
  \<open>[context["user"], context["room"],] + context["exits"] + context["users"] + context["things"]\<close>,
  evaluated from left to right.
\<close>

definition candidate_objects_st :: "store \<Rightarrow> (string \<rightharpoonup> addr) \<Rightarrow> error + addr list" where
  "candidate_objects_st s cx =
     (case lookup_obj cx ''user'' of Inl e \<Rightarrow> Inl e | Inr u \<Rightarrow>
      case lookup_obj cx ''room'' of Inl e \<Rightarrow> Inl e | Inr r \<Rightarrow>
      case lookup_list s cx ''exits'' of Inl e \<Rightarrow> Inl e | Inr es \<Rightarrow>
      case lookup_list s cx ''users'' of Inl e \<Rightarrow> Inl e | Inr us \<Rightarrow>
      case lookup_list s cx ''things'' of Inl e \<Rightarrow> Inl e | Inr ts \<Rightarrow>
      Inr ([u, r] @ es @ us @ ts))"

definition match_object_st :: "defaults \<Rightarrow> string \<Rightarrow> addr \<Rightarrow> store \<Rightarrow> (error + addr) \<times> store" where
  "match_object_st d identifier c s =
     (let ident = str_lower (str_strip identifier)
      in if ident = [] then (let (r, s') = new (Objs []) s in (Inr r, s'))
         else
           (let words = str_split ident
            in case words of
                 [] \<Rightarrow> (Inl IndexError, s)
               | w0 # _ \<Rightarrow>
                   (case cells s c of
                      Some (Context cx) \<Rightarrow>
                        if w0 \<in> set (USER_ALIASES d)
                        then (case lookup_obj cx ''user'' of
                                Inl e \<Rightarrow> (Inl e, s)
                              | Inr u \<Rightarrow> (let (r, s') = new (Objs [u]) s in (Inr r, s')))
                        else if w0 \<in> set (ROOM_ALIASES d)
                        then (case lookup_obj cx ''room'' of
                                Inl e \<Rightarrow> (Inl e, s)
                              | Inr u \<Rightarrow> (let (r, s') = new (Objs [u]) s in (Inr r, s')))
                        else
                          (case candidate_objects_st s cx of
                             Inl e \<Rightarrow> (Inl e, s)
                           | Inr cands \<Rightarrow>
                               if MATCH_OBJECT_ID w0
                               then (case py_int (tl w0) of
                                       Inl e \<Rightarrow> (Inl e, s)
                                     | Inr object_id \<Rightarrow>
                                         (case with_id_st object_id cands s of
                                            Inl e \<Rightarrow> (Inl e, s)
                                          | Inr found \<Rightarrow>
                                              (let (r, s') = new (Objs found) s in (Inr r, s'))))
                               else
                                 (let (m, s1) = new (Objs []) s;
                                      (wl, s2) = new (Strs []) s1
                                  in match_words_st d cands m wl words s2))
                    | _ \<Rightarrow> (Inl TypeError, s))))"

text \<open>
  What a store holds for the resolver. \<open>the_dict\<close> reads the object at an allocated
  address, \<open>the_objs\<close> the objects of the list at an allocated address, and \<open>snapshot\<close>
  the whole context: its five entries with every object and every list they refer to.
\<close>

definition the_dict :: "store \<Rightarrow> addr \<Rightarrow> obj option" where
  "the_dict s a =
     (if a < lim s then (case cells s a of Some (Dict ob) \<Rightarrow> Some ob | _ \<Rightarrow> None) else None)"

definition the_dicts :: "store \<Rightarrow> addr list \<Rightarrow> obj list option" where
  "the_dicts s as = those (map (the_dict s) as)"

definition the_objs :: "store \<Rightarrow> addr \<Rightarrow> obj list option" where
  "the_objs s a =
     (if a < lim s then (case cells s a of Some (Objs as) \<Rightarrow> the_dicts s as | _ \<Rightarrow> None) else None)"

definition snapshot :: "store \<Rightarrow> addr \<Rightarrow> context option" where
  "snapshot s c =
     (if c < lim s
      then (case cells s c of
              Some (Context cx) \<Rightarrow>
                (case (cx ''user'', cx ''room'', cx ''exits'', cx ''users'', cx ''things'') of
                   (Some u, Some r, Some e, Some us, Some t) \<Rightarrow>
                     (case (the_dict s u, the_dict s r, the_objs s e, the_objs s us, the_objs s t) of
                        (Some u', Some r', Some e', Some us', Some t') \<Rightarrow>
                          Some \<lparr>user = u', room = r', exits = e', users = us', things = t'\<rparr>
                      | _ \<Rightarrow> None)
                 | _ \<Rightarrow> None)
            | _ \<Rightarrow> None)
      else None)"

text \<open>What a call returns to its caller: the exception, or the objects of the returned list.\<close>

definition returned :: "(error + addr) \<times> store \<Rightarrow> error + obj list option" where
  "returned rs = (case fst rs of Inl e \<Rightarrow> Inl e | Inr r \<Rightarrow> Inr (the_objs (snd rs) r))"

text \<open>Every cell that \<open>s\<close> has allocated is the same in \<open>s'\<close>.\<close>

definition unchanged :: "store \<Rightarrow> store \<Rightarrow> bool" where
  "unchanged s s' = (lim s \<le> lim s' \<and> (\<forall>a<lim s. cells s' a = cells s a))"

text \<open>The same for the allocated cells outside the set \<open>M\<close> of addresses.\<close>

definition unchanged_but :: "addr set \<Rightarrow> store \<Rightarrow> store \<Rightarrow> bool" where
  "unchanged_but M s s' = (lim s \<le> lim s' \<and> (\<forall>a<lim s. a \<notin> M \<longrightarrow> cells s' a = cells s a))"

section \<open>The command parser\<close>

text \<open>
  The module \<open>textsmith/parser.py\<close> (the class \<open>Parser\<close> with \<open>eval\<close>,
  \<open>handle_exception\<close> and \<open>parse\<close>) is not among the sources; its tests are. The
  definitions of this section follow the spec, and the tests where the spec is silent.

  An exception is the signal \<open>UnknownVerb\<close> of the verb registry or any other
  exception, which carries its text. A handler of a verb or of a shortcut is an
  external collaborator: it takes the user id, the connection id, the message id and
  the text, changes the world, and either returns or raises.
\<close>

datatype exn = UnknownVerb | Exception string

record log_entry =
  log_event :: string
  log_user_id :: int
  log_connection_id :: string
  log_message_id :: string
  log_message :: string
  log_exc_info :: exn

text \<open>
  The world as the parser sees it: the entries written to the structured log, the calls
  of \<open>Logic.emit_to_user\<close> as pairs of user id and message (rendering the message and
  publishing it are the collaborators' work), and the state of everything else.
\<close>

record 'w world =
  logged :: "log_entry list"
  emitted :: "(int \<times> string) list"
  outside :: 'w

type_synonym 'w handler =
  "int \<Rightarrow> string \<Rightarrow> string \<Rightarrow> string \<Rightarrow> 'w world \<Rightarrow> exn option \<times> 'w world"

record 'w verbs =
  v_say :: "'w handler"
  v_shout :: "'w handler"
  v_emote :: "'w handler"
  v_tell :: "'w handler"
  v_call :: "int \<Rightarrow> string \<Rightarrow> string \<Rightarrow> string \<Rightarrow> string \<Rightarrow> 'w world \<Rightarrow> exn option \<times> 'w world"

text \<open>
  The constants of \<open>textsmith.constants\<close> that the parser uses, as parameters (the
  module is not among the sources): the template \<open>SYSTEM_OUTPUT\<close>, given as the text
  before and the text after its one placeholder, and the pool \<open>HUH\<close> of fallback phrases.
  \<open>format_system k x\<close> is \<open>constants.SYSTEM_OUTPUT.format(x)\<close>.
\<close>

record constants =
  SYSTEM_OUTPUT :: "string \<times> string"
  HUH :: "string list"

definition format_system :: "constants \<Rightarrow> string \<Rightarrow> string" where
  "format_system k x = fst (SYSTEM_OUTPUT k) @ x @ snd (SYSTEM_OUTPUT k)"

text \<open>
  \<open>Logic.emit_to_user\<close>: the call is recorded with the message as it was passed, before
  Markdown renders it and the datastore publishes it.
\<close>

definition emit_to_user :: "int \<Rightarrow> string \<Rightarrow> 'w world \<Rightarrow> 'w world" where
  "emit_to_user uid msg w = w\<lparr>emitted := emitted w @ [(uid, msg)]\<rparr>"

text \<open>Modelled from the spec: the escaping step of \<open>Parser.eval\<close>, "escape any
  markup-significant characters (HTML-style escaping)"; the test compares with Python's
  \<open>html.escape\<close>, which replaces the five characters below.
\<close>

definition escape_char :: "char \<Rightarrow> string" where
  "escape_char c =
     (if c = CHR ''&'' then ''&amp;''
      else if c = CHR ''<'' then ''&lt;''
      else if c = CHR ''>'' then ''&gt;''
      else if c = CHR 0x22 then ''&quot;''
      else if c = CHR 0x27 then ''&#x27;''
      else [c])"

text \<open>Modelled from the spec: the escaped input that \<open>Parser.eval\<close> hands to \<open>parse\<close>,
  every character replaced as above.
\<close>

definition html_escape :: "string \<Rightarrow> string" where
  "html_escape s = concat (map escape_char s)"

text \<open>Modelled from the spec: \<open>Parser.parse\<close>, which is missing from the sources. The text
  is trimmed; an empty text does nothing; the first character of the trimmed text
  selects a shortcut, in the order \<open>"\<close>, \<open>!\<close>, \<open>:\<close>, \<open>@\<close>, whose handler gets the text
  after that character; otherwise the first token is the verb and the text after the
  first run of white space its argument string, and the verb registry is called. When
  the registry signals an unknown verb, one message goes to the user: the quoted verb,
  a separator and the phrase of the pool that the randomness source \<open>pick\<close> selects.
  Any other exception is passed on to the caller.
\<close>

definition parse ::
  "constants \<Rightarrow> 'w verbs \<Rightarrow> nat \<Rightarrow> int \<Rightarrow> string \<Rightarrow> string \<Rightarrow> string \<Rightarrow> 'w world
     \<Rightarrow> exn option \<times> 'w world" where
  "parse k vs pick uid conn mid text w =
     (case str_strip text of
        [] \<Rightarrow> (None, w)
      | c # remainder \<Rightarrow>
          if c = CHR 0x22 then v_say vs uid conn mid remainder w
          else if c = CHR ''!'' then v_shout vs uid conn mid remainder w
          else if c = CHR '':'' then v_emote vs uid conn mid remainder w
          else if c = CHR ''@'' then v_tell vs uid conn mid remainder w
          else
            (let verb = takeWhile (\<lambda>x. \<not> is_space x) (c # remainder);
                 args = dropWhile is_space (dropWhile (\<lambda>x. \<not> is_space x) (c # remainder))
             in case v_call vs uid conn mid verb args w of
                  (Some UnknownVerb, w') \<Rightarrow>
                    (if HUH k = [] then (Some (Exception ''IndexError''), w')
                     else (None, emit_to_user uid
                             ([CHR 0x22] @ verb @ [CHR 0x22] @ '', '' @ HUH k ! (pick mod length (HUH k)))
                             w'))
                | r \<Rightarrow> r))"

text \<open>Modelled from the spec: the apology of \<open>Parser.handle_exception\<close>, "a generic apology
  message containing the message id", with the wording and the system format of the
  test. It is a function of the message id alone: no exception is among its arguments.
\<close>

definition apology :: "constants \<Rightarrow> string \<Rightarrow> string" where
  "apology k mid =
     format_system k (''Sorry. Something went wrong when processing your command. id: '' @ mid)"

text \<open>Modelled from the spec: \<open>Parser.handle_exception\<close>, which is missing from the
  sources: it logs the event with the user id, the connection id, the message id, the
  message and the exception, and emits the apology to the user.
\<close>

definition handle_exception ::
  "constants \<Rightarrow> int \<Rightarrow> string \<Rightarrow> string \<Rightarrow> string \<Rightarrow> exn \<Rightarrow> 'w world \<Rightarrow> 'w world" where
  "handle_exception k uid conn mid msg ex w =
     emit_to_user uid (apology k mid)
       (w\<lparr>logged := logged w @
            [\<lparr>log_event = ''Exception.'', log_user_id = uid, log_connection_id = conn,
              log_message_id = mid, log_message = msg, log_exc_info = ex\<rparr>]\<rparr>)"

text \<open>Modelled from the spec: \<open>Parser.eval\<close>, which is missing from the sources: it escapes
  the raw input, calls \<open>parse\<close> with the message id \<open>mid\<close> generated for this input,
  and hands any exception of \<open>parse\<close>, with the original raw message, to
  \<open>handle_exception\<close>. The first component of the result is the exception that reaches
  the caller of \<open>eval\<close>.
\<close>

definition eval ::
  "constants \<Rightarrow> 'w verbs \<Rightarrow> nat \<Rightarrow> string \<Rightarrow> int \<Rightarrow> string \<Rightarrow> string \<Rightarrow> 'w world
     \<Rightarrow> exn option \<times> 'w world" where
  "eval k vs pick mid uid conn raw w =
     (case parse k vs pick uid conn mid (html_escape raw) w of
        (None, w') \<Rightarrow> (None, w')
      | (Some ex, w') \<Rightarrow> (None, handle_exception k uid conn mid raw ex w'))"

section \<open>Example data\<close>

text \<open>
  A small world for evaluating the functions: a user in a hall with one exit, another
  user, and three things, two of which share the id 42.
\<close>

definition demo_defaults :: defaults where
  "demo_defaults =
     \<lparr>USER_ALIASES = [''me'', ''myself''], ROOM_ALIASES = [''here''],
      NAME = ''name'', ALIAS = ''alias'', IS_SCRIPT = ''#!''\<rparr>"

definition mk_obj :: "int \<Rightarrow> string \<Rightarrow> string list \<Rightarrow> obj" where
  "mk_obj i n as = [''id'' \<mapsto> PInt i, ''name'' \<mapsto> PStr n, ''alias'' \<mapsto> PList (map PStr as)]"

definition demo_context :: "context" where
  "demo_context =
     \<lparr>user = mk_obj 1 ''Alice'' [],
      room = mk_obj 2 ''Hall'' [''Lobby''],
      exits = [mk_obj 3 ''North'' [''n'']],
      users = [mk_obj 4 ''Bob'' []],
      things = [mk_obj 42 ''Red Sword'' [''Sword''], mk_obj 42 ''Lamp'' [], mk_obj 7 ''Lamp'' []]\<rparr>"

text \<open>
  Handlers that stand for the mocks of the tests: they record their call in the outside
  world. The handler of \<open>tell\<close> raises after recording, and the registry knows no verb.
\<close>

type_synonym call = "string \<times> int \<times> string \<times> string \<times> string"

definition record_call :: "string \<Rightarrow> (call list) handler" where
  "record_call nm uid conn mid text w = (None, w\<lparr>outside := outside w @ [(nm, uid, conn, mid, text)]\<rparr>)"

definition failing_call :: "string \<Rightarrow> exn \<Rightarrow> (call list) handler" where
  "failing_call nm ex uid conn mid text w =
     (Some ex, w\<lparr>outside := outside w @ [(nm, uid, conn, mid, text)]\<rparr>)"

definition demo_verbs :: "(call list) verbs" where
  "demo_verbs =
     \<lparr>v_say = record_call ''say'', v_shout = record_call ''shout'',
      v_emote = record_call ''emote'', v_tell = record_call ''tell'',
      v_call = (\<lambda>uid conn mid verb args w. (Some UnknownVerb, w))\<rparr>"

definition failing_verbs :: "(call list) verbs" where
  "failing_verbs = demo_verbs\<lparr>v_tell := failing_call ''tell'' (Exception ''boom!'')\<rparr>"

definition demo_constants :: constants where
  "demo_constants = \<lparr>SYSTEM_OUTPUT = (''<system>'', ''</system>''), HUH = [''Huh?'', ''Eh?'']\<rparr>"

definition empty_world :: "(call list) world" where
  "empty_world = \<lparr>logged = [], emitted = [], outside = []\<rparr>"

text \<open>The example context in a store: the objects at 0 to 6, the lists at 7 to 9, the context at 10.\<close>

definition demo_store :: store where
  "demo_store =
     \<lparr>cells =
        [0 \<mapsto> Dict (mk_obj 1 ''Alice'' []),
         1 \<mapsto> Dict (mk_obj 2 ''Hall'' [''Lobby'']),
         2 \<mapsto> Dict (mk_obj 3 ''North'' [''n'']),
         3 \<mapsto> Dict (mk_obj 4 ''Bob'' []),
         4 \<mapsto> Dict (mk_obj 42 ''Red Sword'' [''Sword'']),
         5 \<mapsto> Dict (mk_obj 42 ''Lamp'' []),
         6 \<mapsto> Dict (mk_obj 7 ''Lamp'' []),
         7 \<mapsto> Objs [2],
         8 \<mapsto> Objs [3],
         9 \<mapsto> Objs [4, 5, 6],
         10 \<mapsto> Context [''user'' \<mapsto> 0, ''room'' \<mapsto> 1, ''exits'' \<mapsto> 7, ''users'' \<mapsto> 8, ''things'' \<mapsto> 9]],
      lim = 11\<rparr>"

section \<open>Facts about the string operations\<close>

lemma lower_char_idem: "lower_char (lower_char c) = lower_char c"
  by (simp add: lower_char_def Let_def)

lemma is_space_lower_char: "is_space (lower_char c) = is_space c"
  by (auto simp add: lower_char_def is_space_def Let_def)


lemma str_lower_idem: "str_lower (str_lower s) = str_lower s"
  by (simp add: str_lower_def lower_char_idem)

lemma str_lower_Nil_iff: "str_lower s = [] \<longleftrightarrow> s = []"
  by (simp add: str_lower_def)

lemma str_strip_all_space:
  assumes "\<forall>c\<in>set s. is_space c"
  shows "str_strip s = []"
proof -
  from assms have e: "dropWhile is_space s = []" by simp
  show ?thesis by (simp only: str_strip_def e rev.simps dropWhile.simps)
qed

lemma split_from_all_space:
  "\<forall>c\<in>set s. is_space c \<Longrightarrow> split_from cur s = (if cur = [] then [] else [cur])"
  by (induction s arbitrary: cur) auto

lemma split_from_dropWhile: "split_from [] (dropWhile is_space s) = split_from [] s"
  by (induction s) auto

lemma rstrip_Cons:
  "rev (dropWhile is_space (rev (c # cs))) =
     (if \<forall>x\<in>set (c # cs). is_space x then [] else c # rev (dropWhile is_space (rev cs)))"
  by (auto simp add: dropWhile_append)

lemma split_from_rstrip: "split_from cur (rev (dropWhile is_space (rev s))) = split_from cur s"
proof (induction s arbitrary: cur)
  case Nil
  then show ?case by simp
next
  case (Cons c cs)
  show ?case
  proof (cases "\<forall>x\<in>set (c # cs). is_space x")
    case True
    then have e: "rev (dropWhile is_space (rev (c # cs))) = []"
      using rstrip_Cons [of c cs] by simp
    show ?thesis
      unfolding e using True split_from_all_space [of "c # cs" cur] by simp
  next
    case False
    then have "rev (dropWhile is_space (rev (c # cs))) = c # rev (dropWhile is_space (rev cs))"
      using rstrip_Cons [of c cs] by simp
    then show ?thesis
      using Cons.IH by simp
  qed
qed

lemma str_split_strip: "str_split (str_strip s) = str_split s"
  by (simp add: str_split_def str_strip_def split_from_rstrip split_from_dropWhile)

lemma split_from_lower:
  "split_from (map lower_char cur) (map lower_char s) = map (map lower_char) (split_from cur s)"
proof (induction s arbitrary: cur)
  case Nil
  then show ?case by simp
next
  case (Cons c cs)
  show ?case
    using Cons.IH [of "[]"] Cons.IH [of "cur @ [c]"]
    by (simp add: is_space_lower_char)
qed

lemma str_split_lower: "str_split (str_lower s) = map str_lower (str_split s)"
  using split_from_lower [of "[]" s] by (simp add: str_split_def str_lower_def [abs_def])

lemma split_from_Nil_iff:
  "split_from cur s = [] \<longleftrightarrow> cur = [] \<and> (\<forall>c\<in>set s. is_space c)"
  by (induction s arbitrary: cur) auto

lemma str_strip_Nil_iff: "str_strip s = [] \<longleftrightarrow> (\<forall>c\<in>set s. is_space c)"
proof
  assume "str_strip s = []"
  then have "\<forall>c\<in>set (dropWhile is_space s). is_space c"
    by (simp add: str_strip_def dropWhile_eq_Nil_conv)
  moreover have "s = takeWhile is_space s @ dropWhile is_space s" by simp
  ultimately show "\<forall>c\<in>set s. is_space c"
    by (metis Un_iff set_append set_takeWhileD)
qed (simp add: str_strip_all_space)

lemma str_split_Nil_iff: "str_split s = [] \<longleftrightarrow> str_strip s = []"
  by (simp add: str_split_def split_from_Nil_iff str_strip_Nil_iff)

lemma normalized_words:
  "str_split (str_lower (str_strip s)) = map str_lower (str_split s)"
  by (simp add: str_split_lower str_split_strip)

lemma str_join_lower: "str_join (map str_lower ws) = str_lower (str_join ws)"
  by (induction ws rule: str_join.induct) (simp_all add: str_lower_def lower_char_def)

lemma caseless_eq_lower: "caseless_eq a b \<longleftrightarrow> str_lower a = str_lower b"
  unfolding caseless_eq_def str_lower_def
proof (induction a arbitrary: b)
  case Nil
  then show ?case by auto
next
  case (Cons x xs)
  then show ?case by (cases b) auto
qed

section \<open>Facts about the loops of the resolver\<close>

lemma lower_all_strs: "list_all is_str vs \<Longrightarrow> lower_all vs = Inr (map str_lower (the_strs vs))"
proof (induction vs)
  case Nil
  then show ?case by simp
next
  case (Cons v vs)
  then show ?case by (cases v) simp_all
qed

lemma get_obj_name_named:
  "named_obj d ob \<Longrightarrow> get_obj_name d ob = Inr (str_lower (display_name d ob))"
  by (auto simp add: named_obj_def get_obj_name_def display_name_def
      split: option.splits pyval.splits)

lemma get_aliases_named:
  "named_obj d ob \<Longrightarrow> get_aliases d ob = Inr (map str_lower (alias_list d ob))"
  by (auto simp add: named_obj_def get_aliases_def alias_list_def lower_all_strs
      split: option.splits pyval.splits)

lemma name_matches_lower:
  "name_matches d name ob \<longleftrightarrow>
     str_lower name = str_lower (display_name d ob) \<or>
     str_lower name \<in> set (map str_lower (alias_list d ob))"
  by (auto simp add: name_matches_def caseless_eq_lower list_ex_iff)

lemma matches_name_named:
  assumes "named_obj d ob"
  shows "matches_name d name ob = Inr (name_matches d name ob)"
proof -
  have "matches_name d name ob =
      Inr (str_lower (display_name d ob) = str_lower name \<or>
           str_lower name \<in> set (map str_lower (alias_list d ob)))"
    by (simp add: matches_name_def Let_def get_obj_name_named [OF assms] get_aliases_named [OF assms])
  then show ?thesis
    by (auto simp add: name_matches_lower)
qed

lemma name_matches_cong:
  "str_lower n = str_lower n' \<Longrightarrow> name_matches d n ob = name_matches d n' ob"
  by (simp add: name_matches_lower)

lemma append_matches_named:
  "\<forall>ob\<in>set cs. named_obj d ob \<Longrightarrow>
     append_matches d name cs m = Inr (m @ filter (name_matches d name) cs)"
  by (induction cs arbitrary: m) (simp_all add: matches_name_named)





lemma match_words_first:
  assumes "\<forall>ob\<in>set cs. named_obj d ob"
    and "1 \<le> k" and "k \<le> length ws"
    and "filter (name_matches d (str_join (wl @ take k ws))) cs \<noteq> []"
    and "\<forall>j. 1 \<le> j \<and> j < k \<longrightarrow> filter (name_matches d (str_join (wl @ take j ws))) cs = []"
  shows "match_words d cs [] wl ws = Inr (filter (name_matches d (str_join (wl @ take k ws))) cs)"
  using assms(2-)
proof (induction ws arbitrary: wl k)
  case Nil
  then show ?case by simp
next
  case (Cons w ws)
  note am = append_matches_named [OF assms(1), of "str_join (wl @ [w])" "[]"]
  show ?case
  proof (cases "k = 1")
    case True
    with Cons.prems am show ?thesis by simp
  next
    case False
    with Cons.prems obtain k' where k': "k = Suc k'" "1 \<le> k'" "k' \<le> length ws"
      by (cases k) auto
    from Cons.prems(4) k' have e: "filter (name_matches d (str_join (wl @ [w]))) cs = []"
      by (metis One_nat_def append_Nil2 le_refl lessI less_le_trans not_less_eq_eq take_Suc_Cons take_0 Suc_le_lessD le_imp_less_Suc)
    have "match_words d cs [] (wl @ [w]) ws =
        Inr (filter (name_matches d (str_join ((wl @ [w]) @ take k' ws))) cs)"
    proof (rule Cons.IH [OF k'(2,3)])
      show "filter (name_matches d (str_join ((wl @ [w]) @ take k' ws))) cs \<noteq> []"
        using Cons.prems(3) k' by simp
      show "\<forall>j. 1 \<le> j \<and> j < k' \<longrightarrow>
          filter (name_matches d (str_join ((wl @ [w]) @ take j ws))) cs = []"
      proof (intro allI impI)
        fix j assume "1 \<le> j \<and> j < k'"
        then have "1 \<le> Suc j \<and> Suc j < k" using k' by simp
        with Cons.prems(4) have
          "filter (name_matches d (str_join (wl @ take (Suc j) (w # ws)))) cs = []" by blast
        then show "filter (name_matches d (str_join ((wl @ [w]) @ take j ws))) cs = []" by simp
      qed
    qed
    with am e k' show ?thesis by simp
  qed
qed

lemma match_words_none:
  assumes "\<forall>ob\<in>set cs. named_obj d ob"
    and "\<forall>k. 1 \<le> k \<and> k \<le> length ws \<longrightarrow> filter (name_matches d (str_join (wl @ take k ws))) cs = []"
  shows "match_words d cs [] wl ws = Inr []"
  using assms(2)
proof (induction ws arbitrary: wl)
  case Nil
  then show ?case by simp
next
  case (Cons w ws)
  note am = append_matches_named [OF assms(1), of "str_join (wl @ [w])" "[]"]
  from Cons.prems have e: "filter (name_matches d (str_join (wl @ take 1 (w # ws)))) cs = []"
    by (metis One_nat_def le_refl length_Cons Suc_le_mono le0)
  have "match_words d cs [] (wl @ [w]) ws = Inr []"
  proof (rule Cons.IH, intro allI impI)
    fix k assume "1 \<le> k \<and> k \<le> length ws"
    then have "1 \<le> Suc k \<and> Suc k \<le> length (w # ws)" by simp
    with Cons.prems have
      "filter (name_matches d (str_join (wl @ take (Suc k) (w # ws)))) cs = []" by blast
    then show "filter (name_matches d (str_join ((wl @ [w]) @ take k ws))) cs = []" by simp
  qed
  with am e show ?case by simp
qed

lemma match_object_words:
  assumes "str_split identifier = w # rest"
  shows "match_object d identifier ctx =
     (if str_lower w \<in> set (USER_ALIASES d) then Inr [user ctx]
      else if str_lower w \<in> set (ROOM_ALIASES d) then Inr [room ctx]
      else if MATCH_OBJECT_ID (str_lower w)
        then (case py_int (tl (str_lower w)) of
                Inl e \<Rightarrow> Inl e
              | Inr object_id \<Rightarrow> with_id object_id (candidate_objects ctx))
        else match_words d (candidate_objects ctx) [] [] (map str_lower (w # rest)))"
proof -
  from assms have "str_strip identifier \<noteq> []"
    using str_split_Nil_iff [of "identifier"] by simp
  then have ne: "str_lower (str_strip identifier) \<noteq> []"
    by (simp add: str_lower_Nil_iff)
  have ws: "str_split (str_lower (str_strip identifier)) = str_lower w # map str_lower rest"
    using assms by (simp add: normalized_words)
  show ?thesis
    by (simp add: match_object_def Let_def ne ws)
qed

section \<open>The resolver\<close>

text \<open>
  Claim C8. An identifier that consists of white space only, the empty string included,
  resolves to the empty sequence in every context.
\<close>

theorem match_object_blank:
  assumes "\<forall>c\<in>set identifier. is_space c"
  shows "match_object d identifier ctx = Inr []"
  using str_strip_all_space [OF assms] by (simp add: match_object_def str_lower_def)

theorem match_object_blank_witness:
  "list_all is_space [CHR '' '', CHR 0x09, CHR 0x0A, CHR '' ''] \<and>
   match_object demo_defaults [CHR '' '', CHR 0x09, CHR 0x0A, CHR '' ''] demo_context = Inr [] \<and>
   match_object demo_defaults [] demo_context = Inr []"
proof -
  have h: "\<forall>c\<in>set [CHR '' '', CHR 0x09, CHR 0x0A, CHR '' '']. is_space c"
    by (simp add: is_space_def)
  show ?thesis
    using h match_object_blank [OF h, of demo_defaults demo_context]
      match_object_blank [of "[]" demo_defaults demo_context]
    by (simp add: is_space_def)
qed

text \<open>
  Claim C6. When the first word of the normalised identifier is one of the user
  aliases, the result is the acting user alone, whatever words follow. Otherwise, when
  it is one of the room aliases, the result is the current room alone. The user aliases
  are looked at first, so a word in both sets resolves to the user.
\<close>

theorem match_object_special_alias:
  assumes "str_split identifier = w # rest"
  shows "(str_lower w \<in> set (USER_ALIASES d) \<longrightarrow> match_object d identifier ctx = Inr [user ctx]) \<and>
         (str_lower w \<notin> set (USER_ALIASES d) \<and> str_lower w \<in> set (ROOM_ALIASES d) \<longrightarrow>
            match_object d identifier ctx = Inr [room ctx])"
  by (simp add: match_object_words [OF assms])

theorem match_object_special_alias_witness:
  "str_split ''  ME and the rest'' = ''ME'' # [''and'', ''the'', ''rest''] \<and>
   str_lower ''ME'' \<in> set (USER_ALIASES demo_defaults) \<and>
   match_object demo_defaults ''  ME and the rest'' demo_context = Inr [user demo_context] \<and>
   str_split ''Here'' = ''Here'' # [] \<and>
   str_lower ''Here'' \<notin> set (USER_ALIASES demo_defaults) \<and>
   str_lower ''Here'' \<in> set (ROOM_ALIASES demo_defaults) \<and>
   match_object demo_defaults ''Here'' demo_context = Inr [room demo_context]"
proof -
  have s1: "str_split ''  ME and the rest'' = ''ME'' # [''and'', ''the'', ''rest'']"
    by (simp add: str_split_def is_space_def)
  have s2: "str_split ''Here'' = ''Here'' # []"
    by (simp add: str_split_def is_space_def)
  have l1: "str_lower ''ME'' = ''me''" and l2: "str_lower ''Here'' = ''here''"
    by (simp_all add: str_lower_def lower_char_def char_of_eq_iff)
  show ?thesis
    using match_object_special_alias [OF s1, of demo_defaults demo_context]
      match_object_special_alias [OF s2, of demo_defaults demo_context]
    by (simp add: s1 s2 l1 l2 demo_defaults_def)
qed







lemma demo_candidates:
  "candidate_objects demo_context =
     [mk_obj 1 ''Alice'' [], mk_obj 2 ''Hall'' [''Lobby''], mk_obj 3 ''North'' [''n''],
      mk_obj 4 ''Bob'' [], mk_obj 42 ''Red Sword'' [''Sword''], mk_obj 42 ''Lamp'' [],
      mk_obj 7 ''Lamp'' []]"
  by (simp add: candidate_objects_def demo_context_def)





lemma mk_obj_named: "named_obj demo_defaults (mk_obj i n as)"
  by (simp add: named_obj_def demo_defaults_def mk_obj_def list_all_iff)

lemma the_strs_map: "the_strs (map PStr as) = as"
  by (induction as) simp_all

lemma mk_obj_display_name: "display_name demo_defaults (mk_obj i n as) = n"
  by (simp add: display_name_def demo_defaults_def mk_obj_def)

lemma mk_obj_alias_list: "alias_list demo_defaults (mk_obj i n as) = as"
  by (simp add: alias_list_def demo_defaults_def mk_obj_def the_strs_map)

lemma demo_named: "\<forall>ob\<in>set (candidate_objects demo_context). named_obj demo_defaults ob"
  by (simp add: demo_candidates mk_obj_named)

lemma mk_obj_matches:
  "name_matches demo_defaults name (mk_obj i n as) \<longleftrightarrow>
     str_lower name = str_lower n \<or> str_lower name \<in> set (map str_lower as)"
  by (simp add: name_matches_lower mk_obj_display_name mk_obj_alias_list)

lemma eq_char_of_iff: "c = char_of (n::nat) \<longleftrightarrow> take_bit 8 n = of_char c"
  using char_of_eq_iff [of n c] by auto

lemmas lower_eval = str_lower_def lower_char_def char_of_eq_iff eq_char_of_iff

lemma demo_aliases:
  "USER_ALIASES demo_defaults = [''me'', ''myself'']" "ROOM_ALIASES demo_defaults = [''here'']"
  by (simp_all add: demo_defaults_def)

lemmas demo_eval = Let_def demo_candidates matches_name_named mk_obj_named mk_obj_matches lower_eval

lemma demo_match_lamp:
  "match_object demo_defaults ''lamp'' demo_context = Inr [mk_obj 42 ''Lamp'' [], mk_obj 7 ''Lamp'' []]"
proof -
  have s: "str_split ''lamp'' = ''lamp'' # []"
    by (simp add: str_split_def is_space_def)
  have l: "str_lower ''lamp'' = ''lamp''"
    by (simp add: lower_eval)
  have "match_words demo_defaults (candidate_objects demo_context) [] [] [''lamp''] =
      Inr [mk_obj 42 ''Lamp'' [], mk_obj 7 ''Lamp'' []]"
    by (simp add: demo_eval)
  then show ?thesis
    by (simp add: match_object_words [OF s] l demo_aliases MATCH_OBJECT_ID_def)
qed


lemma prefix_matches_lower:
  "filter (name_matches d (str_join ([] @ take k (map str_lower ws)))) cs =
   filter (name_matches d (str_join (take k ws))) cs"
proof -
  have "str_join ([] @ take k (map str_lower ws)) = str_lower (str_join (take k ws))"
    by (simp add: take_map str_join_lower)
  moreover have "name_matches d (str_lower (str_join (take k ws))) =
      name_matches d (str_join (take k ws))"
    by (rule ext) (simp add: name_matches_lower str_lower_idem)
  ultimately show ?thesis by simp
qed

text \<open>
  Claim C1. For an identifier whose first word is neither an alias nor an object id, the
  result is the list of the candidates that match the shortest prefix of its words that
  any candidate matches (\<open>k\<close> words, where no prefix of fewer words matches anything);
  longer prefixes play no part. When no prefix matches, the result is empty.
\<close>

theorem match_object_shortest_prefix:
  assumes "str_split identifier = w # rest"
    and "str_lower w \<notin> set (USER_ALIASES d)" and "str_lower w \<notin> set (ROOM_ALIASES d)"
    and "\<not> MATCH_OBJECT_ID (str_lower w)"
    and "\<forall>ob\<in>set (candidate_objects ctx). named_obj d ob"
  shows "(\<forall>k. 1 \<le> k \<and> k \<le> length (w # rest) \<and>
              prefix_matches d (w # rest) ctx k \<noteq> [] \<and>
              (\<forall>j. 1 \<le> j \<and> j < k \<longrightarrow> prefix_matches d (w # rest) ctx j = []) \<longrightarrow>
            match_object d identifier ctx = Inr (prefix_matches d (w # rest) ctx k)) \<and>
         ((\<forall>k. 1 \<le> k \<and> k \<le> length (w # rest) \<longrightarrow> prefix_matches d (w # rest) ctx k = []) \<longrightarrow>
            match_object d identifier ctx = Inr [])"
proof -
  let ?ws = "w # rest"
  let ?cs = "candidate_objects ctx"
  have mo: "match_object d identifier ctx = match_words d ?cs [] [] (map str_lower ?ws)"
    using assms(2-4) by (simp add: match_object_words [OF assms(1)])
  have pm: "\<And>k. filter (name_matches d (str_join ([] @ take k (map str_lower ?ws)))) ?cs =
      prefix_matches d ?ws ctx k"
    unfolding prefix_matches_def by (rule prefix_matches_lower)
  have first: "match_object d identifier ctx = Inr (prefix_matches d ?ws ctx k)"
    if "1 \<le> k" "k \<le> length ?ws" "prefix_matches d ?ws ctx k \<noteq> []"
      "\<forall>j. 1 \<le> j \<and> j < k \<longrightarrow> prefix_matches d ?ws ctx j = []" for k
  proof -
    have "match_words d ?cs [] [] (map str_lower ?ws) =
        Inr (filter (name_matches d (str_join ([] @ take k (map str_lower ?ws)))) ?cs)"
    proof (rule match_words_first [OF assms(5) that(1)])
      show "k \<le> length (map str_lower ?ws)" using that(2) by simp
      show "filter (name_matches d (str_join ([] @ take k (map str_lower ?ws)))) ?cs \<noteq> []"
        unfolding pm by (rule that(3))
      show "\<forall>j. 1 \<le> j \<and> j < k \<longrightarrow>
          filter (name_matches d (str_join ([] @ take j (map str_lower ?ws)))) ?cs = []"
        unfolding pm by (rule that(4))
    qed
    then show ?thesis by (simp only: mo pm)
  qed
  have none: "match_object d identifier ctx = Inr []"
    if "\<forall>k. 1 \<le> k \<and> k \<le> length ?ws \<longrightarrow> prefix_matches d ?ws ctx k = []"
  proof -
    have "match_words d ?cs [] [] (map str_lower ?ws) = Inr []"
    proof (rule match_words_none [OF assms(5)])
      show "\<forall>k. 1 \<le> k \<and> k \<le> length (map str_lower ?ws) \<longrightarrow>
          filter (name_matches d (str_join ([] @ take k (map str_lower ?ws)))) ?cs = []"
        unfolding pm length_map by (rule that)
    qed
    then show ?thesis by (simp only: mo)
  qed
  from first none show ?thesis by blast
qed

lemma demo_prefix_matches:
  "prefix_matches demo_defaults ws demo_context k =
     filter (name_matches demo_defaults (str_join (take k ws))) (candidate_objects demo_context)"
  by (simp add: prefix_matches_def)

theorem match_object_shortest_prefix_witness:
  "match_object demo_defaults ''  red   SWORD lamp '' demo_context =
     Inr [mk_obj 42 ''Red Sword'' [''Sword'']] \<and>
   prefix_matches demo_defaults [''red'', ''SWORD'', ''lamp''] demo_context 1 = [] \<and>
   prefix_matches demo_defaults [''red'', ''SWORD'', ''lamp''] demo_context 2 =
     [mk_obj 42 ''Red Sword'' [''Sword'']] \<and>
   match_object demo_defaults ''green lamp'' demo_context = Inr []"
proof -
  have s: "str_split ''  red   SWORD lamp '' = ''red'' # [''SWORD'', ''lamp'']"
    by (simp add: str_split_def is_space_def)
  have s': "str_split ''green lamp'' = ''green'' # [''lamp'']"
    by (simp add: str_split_def is_space_def)
  have l: "str_lower ''red'' = ''red''" "str_lower ''green'' = ''green''"
    by (simp_all add: lower_eval)
  have p1: "prefix_matches demo_defaults [''red'', ''SWORD'', ''lamp''] demo_context 1 = []"
    by (simp add: demo_prefix_matches demo_candidates mk_obj_matches lower_eval)
  have p2: "prefix_matches demo_defaults [''red'', ''SWORD'', ''lamp''] demo_context 2 =
      [mk_obj 42 ''Red Sword'' [''Sword'']]"
    by (simp add: demo_prefix_matches demo_candidates mk_obj_matches lower_eval numeral_2_eq_2)
  have q: "prefix_matches demo_defaults [''green'', ''lamp''] demo_context k = []"
    if "1 \<le> k" for k
  proof -
    from that consider "k = 1" | "k \<ge> 2" by linarith
    then show ?thesis
    proof cases
      case 1
      then show ?thesis
        by (simp add: demo_prefix_matches demo_candidates mk_obj_matches lower_eval)
    next
      case 2
      then have "take k [''green'', ''lamp''] = [''green'', ''lamp'']" by simp
      then show ?thesis
        by (simp add: demo_prefix_matches demo_candidates mk_obj_matches lower_eval)
    qed
  qed
  have j: "\<forall>j. 1 \<le> j \<and> j < (2::nat) \<longrightarrow>
      prefix_matches demo_defaults [''red'', ''SWORD'', ''lamp''] demo_context j = []"
  proof (intro allI impI)
    fix j :: nat assume "1 \<le> j \<and> j < 2"
    then have "j = 1" by simp
    with p1 show "prefix_matches demo_defaults [''red'', ''SWORD'', ''lamp''] demo_context j = []"
      by simp
  qed
  note t = match_object_shortest_prefix [OF s _ _ _ demo_named]
  note t' = match_object_shortest_prefix [OF s' _ _ _ demo_named]
  have a: "match_object demo_defaults ''  red   SWORD lamp '' demo_context =
      Inr (prefix_matches demo_defaults [''red'', ''SWORD'', ''lamp''] demo_context 2)"
    using t [THEN conjunct1, rule_format, of 2] p2 j
    by (simp add: l demo_aliases MATCH_OBJECT_ID_def)
  have b: "match_object demo_defaults ''green lamp'' demo_context = Inr []"
    using t' [THEN conjunct2] q
    by (simp add: l demo_aliases MATCH_OBJECT_ID_def)
  from a b p1 p2 show ?thesis by simp
qed

lemma caseless_all2_lower:
  "list_all2 caseless_eq as bs \<Longrightarrow> map str_lower as = map str_lower bs"
  by (induction as bs rule: list_all2_induct) (simp_all add: caseless_eq_lower)

section \<open>matches_name and get_attribute_value\<close>

text \<open>
  Claim C7. \<open>matches_name\<close> is true exactly when the name equals the display name up to
  case or equals one of the aliases up to case. Its result does not change when the
  name, the display name and the aliases are replaced by strings that differ from them
  in case only.
\<close>

theorem matches_name_caseless:
  assumes "named_obj d ob"
  shows "matches_name d name ob =
           Inr (caseless_eq name (display_name d ob) \<or>
                (\<exists>a\<in>set (alias_list d ob). caseless_eq name a)) \<and>
         (\<forall>name' ob'. named_obj d ob' \<and> caseless_eq name name' \<and>
              caseless_eq (display_name d ob) (display_name d ob') \<and>
              list_all2 caseless_eq (alias_list d ob) (alias_list d ob') \<longrightarrow>
            matches_name d name' ob' = matches_name d name ob)"
proof (intro conjI allI impI)
  show "matches_name d name ob =
      Inr (caseless_eq name (display_name d ob) \<or>
           (\<exists>a\<in>set (alias_list d ob). caseless_eq name a))"
    by (simp add: matches_name_named [OF assms] name_matches_def list_ex_iff)
next
  fix name' ob'
  assume h: "named_obj d ob' \<and> caseless_eq name name' \<and>
      caseless_eq (display_name d ob) (display_name d ob') \<and>
      list_all2 caseless_eq (alias_list d ob) (alias_list d ob')"
  then have "name_matches d name' ob' = name_matches d name ob"
    using caseless_all2_lower [of "alias_list d ob" "alias_list d ob'"]
    by (simp add: name_matches_lower caseless_eq_lower)
  with h show "matches_name d name' ob' = matches_name d name ob"
    by (simp add: matches_name_named assms)
qed

theorem matches_name_caseless_witness:
  "matches_name demo_defaults ''sWoRd'' (mk_obj 42 ''Red Sword'' [''Sword'']) = Inr True \<and>
   matches_name demo_defaults ''RED SWORD'' (mk_obj 42 ''red sword'' [''SWORD'']) = Inr True \<and>
   matches_name demo_defaults ''swords'' (mk_obj 42 ''Red Sword'' [''Sword'']) = Inr False \<and>
   matches_name demo_defaults ''SWORD'' (mk_obj 42 ''rED sWORD'' [''sword'']) =
     matches_name demo_defaults ''sWoRd'' (mk_obj 42 ''Red Sword'' [''Sword''])"
proof -
  note t = matches_name_caseless [OF mk_obj_named]
  have a: "matches_name demo_defaults ''sWoRd'' (mk_obj 42 ''Red Sword'' [''Sword'']) = Inr True"
    by (simp add: t [THEN conjunct1] mk_obj_display_name mk_obj_alias_list caseless_eq_lower lower_eval)
  have b: "matches_name demo_defaults ''RED SWORD'' (mk_obj 42 ''red sword'' [''SWORD'']) = Inr True"
    by (simp add: t [THEN conjunct1] mk_obj_display_name mk_obj_alias_list caseless_eq_lower lower_eval)
  have c: "matches_name demo_defaults ''swords'' (mk_obj 42 ''Red Sword'' [''Sword'']) = Inr False"
    by (simp add: t [THEN conjunct1] mk_obj_display_name mk_obj_alias_list caseless_eq_lower lower_eval)
  have e: "matches_name demo_defaults ''SWORD'' (mk_obj 42 ''rED sWORD'' [''sword'']) =
     matches_name demo_defaults ''sWoRd'' (mk_obj 42 ''Red Sword'' [''Sword''])"
    by (rule t [THEN conjunct2, rule_format])
      (simp add: mk_obj_named mk_obj_display_name mk_obj_alias_list caseless_eq_lower lower_eval)
  from a b c e show ?thesis by simp
qed



section \<open>The command parser's dispatch and its exception boundary\<close>

text \<open>
  Claim C5. When the first character of the trimmed input is \<open>"\<close>, \<open>!\<close>, \<open>:\<close> or
  \<open>@\<close>, \<open>parse\<close> is the call of the say, shout, emote or tell handler with the user,
  the connection, the message id and the text after that one character, which is not
  trimmed again.
\<close>

theorem parse_shortcuts:
  assumes "str_strip text = c # remainder"
  shows "(c = CHR 0x22 \<longrightarrow> parse k vs pick uid conn mid text w = v_say vs uid conn mid remainder w) \<and>
         (c = CHR ''!'' \<longrightarrow> parse k vs pick uid conn mid text w = v_shout vs uid conn mid remainder w) \<and>
         (c = CHR '':'' \<longrightarrow> parse k vs pick uid conn mid text w = v_emote vs uid conn mid remainder w) \<and>
         (c = CHR ''@'' \<longrightarrow> parse k vs pick uid conn mid text w = v_tell vs uid conn mid remainder w)"
  by (simp add: parse_def assms)

lemma demo_handlers:
  "v_say demo_verbs = record_call ''say''" "v_shout demo_verbs = record_call ''shout''"
  "v_emote demo_verbs = record_call ''emote''" "v_tell demo_verbs = record_call ''tell''"
  by (simp_all add: demo_verbs_def)

theorem parse_shortcuts_witness:
  "parse demo_constants demo_verbs 0 1234 ''c1'' ''m1'' (CHR 0x22 # ''Hello'') empty_world =
     (None, empty_world\<lparr>outside := [(''say'', 1234, ''c1'', ''m1'', ''Hello'')]\<rparr>) \<and>
   parse demo_constants demo_verbs 0 1234 ''c1'' ''m1'' ''!Hello'' empty_world =
     (None, empty_world\<lparr>outside := [(''shout'', 1234, ''c1'', ''m1'', ''Hello'')]\<rparr>) \<and>
   parse demo_constants demo_verbs 0 1234 ''c1'' ''m1'' '':waves'' empty_world =
     (None, empty_world\<lparr>outside := [(''emote'', 1234, ''c1'', ''m1'', ''waves'')]\<rparr>) \<and>
   parse demo_constants demo_verbs 0 1234 ''c1'' ''m1'' ''@user hello'' empty_world =
     (None, empty_world\<lparr>outside := [(''tell'', 1234, ''c1'', ''m1'', ''user hello'')]\<rparr>) \<and>
   parse demo_constants demo_verbs 0 1234 ''c1'' ''m1'' ''  : waves  '' empty_world =
     (None, empty_world\<lparr>outside := [(''emote'', 1234, ''c1'', ''m1'', '' waves'')]\<rparr>)"
proof -
  have s: "str_strip (CHR 0x22 # ''Hello'') = CHR 0x22 # ''Hello''"
    "str_strip ''!Hello'' = CHR ''!'' # ''Hello''"
    "str_strip '':waves'' = CHR '':'' # ''waves''"
    "str_strip ''@user hello'' = CHR ''@'' # ''user hello''"
    "str_strip ''  : waves  '' = CHR '':'' # '' waves''"
    by (simp_all add: str_strip_def is_space_def)
  note t = parse_shortcuts [where k = demo_constants and vs = demo_verbs and pick = 0
      and uid = 1234 and conn = "''c1''" and mid = "''m1''" and w = empty_world]
  show ?thesis
    using t [OF s(1)] t [OF s(2)] t [OF s(3)] t [OF s(4)] t [OF s(5)]
    by (simp add: demo_handlers record_call_def empty_world_def)
qed

text \<open>
  Claim C3. When \<open>parse\<close> raises an exception, \<open>eval\<close> returns without one. It adds
  one entry to the log, with the user id, the connection id, the message id, the raw
  message and the exception, and one message to the user, the apology, which contains
  the message id. The emitted messages are the same whichever exception was raised, so
  they carry nothing of its text.
\<close>

theorem eval_contains_exception:
  assumes "parse k vs pick uid conn mid (html_escape raw) w = (Some ex, w')"
  shows "eval k vs pick mid uid conn raw w =
           (None, w'\<lparr>logged := logged w' @
                      [\<lparr>log_event = ''Exception.'', log_user_id = uid, log_connection_id = conn,
                        log_message_id = mid, log_message = raw, log_exc_info = ex\<rparr>],
                    emitted := emitted w' @ [(uid, apology k mid)]\<rparr>) \<and>
         sublist mid (apology k mid) \<and>
         (\<forall>vs2 ex2. parse k vs2 pick uid conn mid (html_escape raw) w = (Some ex2, w') \<longrightarrow>
            emitted (snd (eval k vs2 pick mid uid conn raw w)) =
            emitted (snd (eval k vs pick mid uid conn raw w)))"
proof (intro conjI allI impI)
  show "eval k vs pick mid uid conn raw w =
      (None, w'\<lparr>logged := logged w' @
                 [\<lparr>log_event = ''Exception.'', log_user_id = uid, log_connection_id = conn,
                   log_message_id = mid, log_message = raw, log_exc_info = ex\<rparr>],
               emitted := emitted w' @ [(uid, apology k mid)]\<rparr>)"
    by (simp add: eval_def assms handle_exception_def emit_to_user_def)
next
  show "sublist mid (apology k mid)"
    unfolding apology_def format_system_def sublist_def
    by (metis append.assoc append_Nil2)
next
  fix vs2 ex2
  assume "parse k vs2 pick uid conn mid (html_escape raw) w = (Some ex2, w')"
  then show "emitted (snd (eval k vs2 pick mid uid conn raw w)) =
      emitted (snd (eval k vs pick mid uid conn raw w))"
    by (simp add: eval_def assms handle_exception_def emit_to_user_def)
qed

theorem eval_contains_exception_witness:
  "eval demo_constants failing_verbs 0 ''m1'' 1234 ''c1'' ''@bob <hi>'' empty_world =
     (None,
      \<lparr>logged = [\<lparr>log_event = ''Exception.'', log_user_id = 1234, log_connection_id = ''c1'',
                  log_message_id = ''m1'', log_message = ''@bob <hi>'',
                  log_exc_info = Exception ''boom!''\<rparr>],
       emitted = [(1234, ''<system>Sorry. Something went wrong when processing your command. id: m1</system>'')],
       outside = [(''tell'', 1234, ''c1'', ''m1'', ''bob &lt;hi&gt;'')]\<rparr>)"
proof -
  have e: "html_escape ''@bob <hi>'' = ''@bob &lt;hi&gt;''"
    by (simp add: html_escape_def escape_char_def)
  have s: "str_strip ''@bob &lt;hi&gt;'' = CHR ''@'' # ''bob &lt;hi&gt;''"
    by (simp add: str_strip_def is_space_def)
  have p: "parse demo_constants failing_verbs 0 1234 ''c1'' ''m1'' (html_escape ''@bob <hi>'') empty_world =
      (Some (Exception ''boom!''), empty_world\<lparr>outside := [(''tell'', 1234, ''c1'', ''m1'', ''bob &lt;hi&gt;'')]\<rparr>)"
    by (simp add: e parse_def s failing_verbs_def failing_call_def empty_world_def)
  show ?thesis
    using eval_contains_exception [OF p, THEN conjunct1]
    by (simp add: empty_world_def apology_def format_system_def demo_constants_def)
qed

section \<open>The resolver changes nothing it is given\<close>

lemma unchanged_but_refl: "unchanged_but M s s"
  by (simp add: unchanged_but_def)

lemma unchanged_but_trans:
  "unchanged_but M s s' \<Longrightarrow> unchanged_but M s' s'' \<Longrightarrow> unchanged_but M s s''"
  by (auto simp add: unchanged_but_def)

lemma unchanged_but_mono: "unchanged_but M s s' \<Longrightarrow> M \<subseteq> N \<Longrightarrow> unchanged_but N s s'"
  by (auto simp add: unchanged_but_def)

lemma unchanged_empty: "unchanged s s' \<longleftrightarrow> unchanged_but {} s s'"
  by (simp add: unchanged_def unchanged_but_def)

lemma unchanged_local:
  "unchanged s0 s \<Longrightarrow> unchanged_but M s s' \<Longrightarrow> \<forall>a\<in>M. lim s0 \<le> a \<Longrightarrow> unchanged s0 s'"
proof -
  assume u: "unchanged s0 s" and b: "unchanged_but M s s'" and m: "\<forall>a\<in>M. lim s0 \<le> a"
  have "cells s' a = cells s0 a" if "a < lim s0" for a
  proof -
    from that m have "a \<notin> M" by auto
    moreover from that u have "a < lim s" "cells s a = cells s0 a"
      by (auto simp add: unchanged_def)
    ultimately show ?thesis
      using b by (simp add: unchanged_but_def)
  qed
  moreover have "lim s0 \<le> lim s'"
    using u b by (simp add: unchanged_def unchanged_but_def)
  ultimately show ?thesis
    by (simp add: unchanged_def)
qed

lemma new_frame: "new c s = (l, s') \<Longrightarrow> unchanged_but M s s'"
  by (auto simp add: new_def unchanged_but_def)

lemma new_cell: "new c s = (l, s') \<Longrightarrow> l = lim s \<and> lim s' = Suc (lim s) \<and> cells s' l = Some c"
  by (auto simp add: new_def)

lemma append_obj_frame: "append_obj l x s = Inr s' \<Longrightarrow> unchanged_but {l} s s'"
  by (auto simp add: append_obj_def unchanged_but_def split: option.splits cell.splits)

lemma append_str_frame: "append_str l x s = Inr s' \<Longrightarrow> unchanged_but {l} s s'"
  by (auto simp add: append_str_def unchanged_but_def split: option.splits cell.splits)

lemma matches_name_st_frame: "unchanged_but M s (snd (matches_name_st d name a s))"
  by (auto simp add: matches_name_st_def Let_def new_def unchanged_but_def
      split: option.splits cell.splits sum.splits)

lemma append_matches_st_frame: "unchanged_but {m} s (snd (append_matches_st d name as m s))"
proof (induction as arbitrary: s)
  case Nil
  then show ?case by (simp add: unchanged_but_refl)
next
  case (Cons a as)
  obtain r s' where ms: "matches_name_st d name a s = (r, s')"
    by (cases "matches_name_st d name a s")
  have f1: "unchanged_but {m} s s'"
    using matches_name_st_frame [of "{m}" s d name a] ms by simp
  show ?case
  proof (cases r)
    case (Inl e)
    with ms f1 show ?thesis by simp
  next
    case (Inr b)
    show ?thesis
    proof (cases b)
      case False
      with ms Inr have "snd (append_matches_st d name (a # as) m s) =
          snd (append_matches_st d name as m s')" by simp
      with f1 Cons.IH [of s'] show ?thesis
        by (auto intro: unchanged_but_trans)
    next
      case True
      show ?thesis
      proof (cases "append_obj m a s'")
        case (Inl e)
        with ms \<open>r = Inr b\<close> True f1 show ?thesis by simp
      next
        case (Inr s'')
        with ms \<open>r = Inr b\<close> True have "snd (append_matches_st d name (a # as) m s) =
            snd (append_matches_st d name as m s'')" by simp
        moreover have "unchanged_but {m} s s''"
          using f1 append_obj_frame [OF Inr] by (rule unchanged_but_trans)
        ultimately show ?thesis
          using Cons.IH [of s''] by (auto intro: unchanged_but_trans)
      qed
    qed
  qed
qed

lemma match_words_st_frame:
  "unchanged_but {m, wl} s (snd (match_words_st d cands m wl ws s))"
proof (induction ws arbitrary: s)
  case Nil
  then show ?case by (simp add: unchanged_but_refl)
next
  case (Cons word rest)
  show ?case
  proof (cases "append_str wl word s")
    case (Inl e)
    then show ?thesis by (simp add: unchanged_but_refl)
  next
    case (Inr s1)
    have f1: "unchanged_but {m, wl} s s1"
      using append_str_frame [OF Inr] by (rule unchanged_but_mono) simp
    show ?thesis
    proof (cases "cells s1 wl")
      case None
      with Inr f1 show ?thesis by simp
    next
      case (Some cl)
      show ?thesis
      proof (cases cl)
        case (Strs word_list)
        obtain r s2 where am: "append_matches_st d (str_join word_list) cands m s1 = (r, s2)"
          by (cases "append_matches_st d (str_join word_list) cands m s1")
        have "unchanged_but {m, wl} s1 s2"
          using append_matches_st_frame [of m s1 d "str_join word_list" cands] am
          by (auto intro: unchanged_but_mono)
        with f1 have f2: "unchanged_but {m, wl} s s2"
          by (rule unchanged_but_trans)
        have step: "snd (match_words_st d cands m wl (word # rest) s) = s2 \<or>
            snd (match_words_st d cands m wl (word # rest) s) =
              snd (match_words_st d cands m wl rest s2)"
          using Inr Some Strs am
          by (auto simp add: Let_def split: sum.splits option.splits cell.splits)
        with f2 Cons.IH [of s2] show ?thesis
          by (auto intro: unchanged_but_trans)
      qed (use Inr Some f1 in simp_all)
    qed
  qed
qed

lemma match_object_st_frame: "unchanged s (snd (match_object_st d identifier c s))"
proof -
  have loop: "unchanged s (snd (match_words_st d cands m wl ws s2))"
    if "new (Objs []) s = (m, s1)" "new (Strs []) s1 = (wl, s2)" for cands m wl ws s1 s2
  proof -
    have "unchanged_but {} s s1" "unchanged_but {} s1 s2"
      using that by (auto intro: new_frame)
    then have "unchanged s s2"
      by (auto simp add: unchanged_empty intro: unchanged_but_trans)
    moreover have "lim s \<le> m" "lim s \<le> wl"
      using new_cell [OF that(1)] new_cell [OF that(2)] by simp_all
    ultimately show ?thesis
      using match_words_st_frame [of m wl s2 d cands ws]
      by (auto intro: unchanged_local)
  qed
  have alloc: "unchanged s s'" if "new cl s = (r, s')" for cl r s'
    using new_frame [OF that, of "{}"] by (simp add: unchanged_empty)
  have refl: "unchanged s s"
    by (simp add: unchanged_def)
  show ?thesis
  proof (cases "str_lower (str_strip identifier) = []")
    case True
    then show ?thesis
      by (auto simp add: match_object_st_def split: prod.splits intro: alloc)
  next
    case ne: False
    show ?thesis
    proof (cases "str_split (str_lower (str_strip identifier))")
      case Nil
      with ne show ?thesis by (simp add: match_object_st_def refl)
    next
      case (Cons w0 ws)
      show ?thesis
      proof (cases "cells s c")
        case None
        with ne Cons show ?thesis by (simp add: match_object_st_def refl)
      next
        case (Some cl)
        show ?thesis
        proof (cases cl)
          case (Context cx)
          consider (usr) "w0 \<in> set (USER_ALIASES d)"
            | (rm) "w0 \<notin> set (USER_ALIASES d)" "w0 \<in> set (ROOM_ALIASES d)"
            | (pool) "w0 \<notin> set (USER_ALIASES d)" "w0 \<notin> set (ROOM_ALIASES d)"
            by blast
          then show ?thesis
          proof cases
            case usr
            with ne Cons Some Context show ?thesis
              by (auto simp add: match_object_st_def refl split: sum.splits prod.splits intro: alloc)
          next
            case rm
            with ne Cons Some Context show ?thesis
              by (auto simp add: match_object_st_def refl split: sum.splits prod.splits intro: alloc)
          next
            case pool
            with ne Cons Some Context show ?thesis
              by (auto simp add: match_object_st_def refl simp del: match_words_st.simps
                  split: sum.splits prod.splits intro: alloc loop)
          qed
        qed (use ne Cons Some in \<open>simp_all add: match_object_st_def refl\<close>)
      qed
    qed
  qed
qed

lemma the_dicts_Nil: "the_dicts s [] = Some []"
  by (simp add: the_dicts_def)

lemma the_dicts_Cons:
  "the_dicts s (a # as) =
     (case the_dict s a of None \<Rightarrow> None | Some ob \<Rightarrow> map_option (Cons ob) (the_dicts s as))"
  unfolding the_dicts_def by simp

lemma the_dicts_ConsE:
  assumes "the_dicts s (a # as) = Some obs"
  obtains ob obs' where "obs = ob # obs'" "the_dict s a = Some ob" "the_dicts s as = Some obs'"
  using assms by (auto simp add: the_dicts_Cons split: option.splits)

lemma the_dicts_append:
  "the_dicts s as = Some xs \<Longrightarrow> the_dicts s bs = Some ys \<Longrightarrow> the_dicts s (as @ bs) = Some (xs @ ys)"
proof (induction as arbitrary: xs)
  case Nil
  then show ?case by (simp add: the_dicts_Nil)
next
  case (Cons a as)
  from Cons.prems(1) obtain ob xs' where
    "xs = ob # xs'" "the_dict s a = Some ob" "the_dicts s as = Some xs'"
    by (rule the_dicts_ConsE)
  with Cons.IH [OF _ Cons.prems(2)] show ?case
    by (simp add: the_dicts_Cons)
qed

lemma the_dicts_Nil_iff: "the_dicts s as = Some obs \<Longrightarrow> obs = [] \<longleftrightarrow> as = []"
  by (cases as) (auto simp add: the_dicts_Nil the_dicts_Cons split: option.splits)

lemma the_dict_unchanged:
  "unchanged s0 s \<Longrightarrow> the_dict s0 a = Some ob \<Longrightarrow> the_dict s a = Some ob"
  by (auto simp add: unchanged_def the_dict_def split: if_splits)

lemma the_dicts_unchanged:
  "unchanged s0 s \<Longrightarrow> the_dicts s0 as = Some obs \<Longrightarrow> the_dicts s as = Some obs"
proof (induction as arbitrary: obs)
  case Nil
  then show ?case by (simp add: the_dicts_Nil)
next
  case (Cons a as)
  from Cons.prems(2) obtain ob obs' where
    "obs = ob # obs'" "the_dict s0 a = Some ob" "the_dicts s0 as = Some obs'"
    by (rule the_dicts_ConsE)
  with Cons.IH [OF Cons.prems(1)] the_dict_unchanged [OF Cons.prems(1)] show ?case
    by (simp add: the_dicts_Cons)
qed

lemma the_objs_unchanged:
  "unchanged s0 s \<Longrightarrow> the_objs s0 a = Some obs \<Longrightarrow> the_objs s a = Some obs"
proof -
  assume u: "unchanged s0 s" and o: "the_objs s0 a = Some obs"
  from o obtain as where h: "a < lim s0" "cells s0 a = Some (Objs as)" "the_dicts s0 as = Some obs"
    by (auto simp add: the_objs_def split: if_splits option.splits cell.splits)
  from u h(1,2) have "a < lim s" "cells s a = Some (Objs as)"
    by (auto simp add: unchanged_def)
  with the_dicts_unchanged [OF u h(3)] show ?thesis
    by (simp add: the_objs_def)
qed

lemma the_objsE:
  assumes "the_objs s a = Some obs"
  obtains as where "a < lim s" "cells s a = Some (Objs as)" "the_dicts s as = Some obs"
  using assms by (auto simp add: the_objs_def split: if_splits option.splits cell.splits)

lemma the_dictE:
  assumes "the_dict s a = Some ob"
  obtains "a < lim s" "cells s a = Some (Dict ob)"
  using assms by (auto simp add: the_dict_def split: if_splits option.splits cell.splits)

lemma snapshotE:
  assumes "snapshot s c = Some ctx"
  obtains cx u r e us t where
    "c < lim s" "cells s c = Some (Context cx)"
    "cx ''user'' = Some u" "cx ''room'' = Some r" "cx ''exits'' = Some e"
    "cx ''users'' = Some us" "cx ''things'' = Some t"
    "the_dict s u = Some (user ctx)" "the_dict s r = Some (room ctx)"
    "the_objs s e = Some (exits ctx)" "the_objs s us = Some (users ctx)"
    "the_objs s t = Some (things ctx)"
  using assms
  by (auto simp add: snapshot_def split: if_splits option.splits cell.splits)

lemma snapshot_unchanged:
  assumes "unchanged s0 s" and "snapshot s0 c = Some ctx"
  shows "snapshot s c = Some ctx"
proof -
  from assms(2) obtain cx u r e us t where h:
    "c < lim s0" "cells s0 c = Some (Context cx)"
    "cx ''user'' = Some u" "cx ''room'' = Some r" "cx ''exits'' = Some e"
    "cx ''users'' = Some us" "cx ''things'' = Some t"
    "the_dict s0 u = Some (user ctx)" "the_dict s0 r = Some (room ctx)"
    "the_objs s0 e = Some (exits ctx)" "the_objs s0 us = Some (users ctx)"
    "the_objs s0 t = Some (things ctx)"
    by (rule snapshotE)
  from assms(1) h(1,2) have "c < lim s" "cells s c = Some (Context cx)"
    by (auto simp add: unchanged_def)
  then show ?thesis
    using h(3-7) the_dict_unchanged [OF assms(1) h(8)] the_dict_unchanged [OF assms(1) h(9)]
      the_objs_unchanged [OF assms(1) h(10)] the_objs_unchanged [OF assms(1) h(11)]
      the_objs_unchanged [OF assms(1) h(12)]
    by (simp add: snapshot_def)
qed

lemma matches_name_st_sim:
  assumes "the_dict s a = Some ob"
  shows "fst (matches_name_st d name a s) = matches_name d name ob"
proof -
  from assms have "cells s a = Some (Dict ob)" by (rule the_dictE)
  then show ?thesis
    by (simp add: matches_name_st_def matches_name_def Let_def split: sum.splits prod.splits)
qed

lemma with_id_st_sim:
  "the_dicts s as = Some obs \<Longrightarrow>
     (case with_id n obs of
        Inl e \<Rightarrow> with_id_st n as s = Inl e
      | Inr r \<Rightarrow> \<exists>rs. with_id_st n as s = Inr rs \<and> the_dicts s rs = Some r)"
proof (induction as arbitrary: obs)
  case Nil
  then show ?case by (simp add: the_dicts_Nil)
next
  case (Cons a as)
  from Cons.prems obtain ob obs' where h:
    "obs = ob # obs'" "the_dict s a = Some ob" "the_dicts s as = Some obs'"
    by (rule the_dicts_ConsE)
  from h(2) have c: "cells s a = Some (Dict ob)" by (rule the_dictE)
  from Cons.IH [OF h(3)] h(2) show ?case
    by (auto simp add: h(1) c the_dicts_Cons split: option.splits sum.splits)
qed

lemma unchanged_step: "unchanged s0 s \<Longrightarrow> unchanged_but {} s s' \<Longrightarrow> unchanged s0 s'"
  by (rule unchanged_local [where M = "{}"]) auto

lemma append_obj_cell:
  assumes "cells s m = Some (Objs ms)"
  shows "append_obj m a s = Inr (s\<lparr>cells := (cells s)(m \<mapsto> Objs (ms @ [a]))\<rparr>)"
  using assms by (simp add: append_obj_def)

lemma append_str_cell:
  assumes "cells s wl = Some (Strs ws)"
  shows "append_str wl w s = Inr (s\<lparr>cells := (cells s)(wl \<mapsto> Strs (ws @ [w]))\<rparr>)"
  using assms by (simp add: append_str_def)

lemma append_matches_st_sim:
  assumes "the_dicts s0 as = Some obs" and "unchanged s0 s" and "lim s0 \<le> m" and "m < lim s"
    and "cells s m = Some (Objs ms)" and "the_dicts s0 ms = Some acc"
  shows "case append_matches d name obs acc of
           Inl e \<Rightarrow> fst (append_matches_st d name as m s) = Inl e
         | Inr r \<Rightarrow> fst (append_matches_st d name as m s) = Inr () \<and>
             (\<exists>rs. cells (snd (append_matches_st d name as m s)) m = Some (Objs rs) \<and>
                   the_dicts s0 rs = Some r)"
  using assms
proof (induction as arbitrary: obs s ms acc)
  case Nil
  then show ?case by (auto simp add: the_dicts_Nil)
next
  case (Cons a as)
  from Cons.prems(1) obtain ob obs' where h:
    "obs = ob # obs'" "the_dict s0 a = Some ob" "the_dicts s0 as = Some obs'"
    by (rule the_dicts_ConsE)
  obtain r s' where ms: "matches_name_st d name a s = (r, s')"
    by (cases "matches_name_st d name a s")
  have r: "r = matches_name d name ob"
    using matches_name_st_sim [OF the_dict_unchanged [OF Cons.prems(2) h(2)], of d name] ms by simp
  have f: "unchanged_but {} s s'"
    using matches_name_st_frame [of "{}" s d name a] ms by simp
  have u': "unchanged s0 s'"
    using Cons.prems(2) f by (rule unchanged_step)
  have m': "m < lim s'" "cells s' m = Some (Objs ms)"
    using f Cons.prems(4,5) by (auto simp add: unchanged_but_def)
  show ?case
  proof (cases r)
    case (Inl e)
    with r have "matches_name d name ob = Inl e" by simp
    with ms Inl show ?thesis by (simp add: h(1))
  next
    case (Inr b)
    with r have mn: "matches_name d name ob = Inr b" by simp
    show ?thesis
    proof (cases b)
      case False
      have "case append_matches d name obs' acc of
           Inl e \<Rightarrow> fst (append_matches_st d name as m s') = Inl e
         | Inr r \<Rightarrow> fst (append_matches_st d name as m s') = Inr () \<and>
             (\<exists>rs. cells (snd (append_matches_st d name as m s')) m = Some (Objs rs) \<and>
                   the_dicts s0 rs = Some r)"
        by (rule Cons.IH [OF h(3) u' Cons.prems(3) m' Cons.prems(6)])
      moreover have "append_matches_st d name (a # as) m s = append_matches_st d name as m s'"
        using ms Inr False by simp
      moreover have "append_matches d name obs acc = append_matches d name obs' acc"
        using mn False by (simp add: h(1))
      ultimately show ?thesis by (simp only:)
    next
      case True
      let ?s'' = "s'\<lparr>cells := (cells s')(m \<mapsto> Objs (ms @ [a]))\<rparr>"
      have ap: "append_obj m a s' = Inr ?s''"
        using m'(2) by (rule append_obj_cell)
      have u'': "unchanged s0 ?s''"
        using u' append_obj_frame [OF ap] by (rule unchanged_local) (simp add: Cons.prems(3))
      have acc': "the_dicts s0 (ms @ [a]) = Some (acc @ [ob])"
        using Cons.prems(6) by (rule the_dicts_append) (simp add: the_dicts_Cons h(2) the_dicts_Nil)
      have "case append_matches d name obs' (acc @ [ob]) of
           Inl e \<Rightarrow> fst (append_matches_st d name as m ?s'') = Inl e
         | Inr r \<Rightarrow> fst (append_matches_st d name as m ?s'') = Inr () \<and>
             (\<exists>rs. cells (snd (append_matches_st d name as m ?s'')) m = Some (Objs rs) \<and>
                   the_dicts s0 rs = Some r)"
        by (rule Cons.IH [OF h(3) u'' Cons.prems(3) _ _ acc']) (simp_all add: m'(1))
      moreover have "append_matches_st d name (a # as) m s = append_matches_st d name as m ?s''"
        using ms Inr True ap by simp
      moreover have "append_matches d name obs acc = append_matches d name obs' (acc @ [ob])"
        using mn True by (simp add: h(1))
      ultimately show ?thesis by (simp only:)
    qed
  qed
qed

lemma match_words_st_sim:
  assumes "the_dicts s0 cands = Some cobs" and "unchanged s0 s"
    and "lim s0 \<le> m" and "lim s0 \<le> wl" and "m \<noteq> wl" and "m < lim s" and "wl < lim s"
    and "cells s m = Some (Objs [])" and "cells s wl = Some (Strs wlv)"
  shows "returned (match_words_st d cands m wl ws s) = (case match_words d cobs [] wlv ws of Inl e \<Rightarrow> Inl e | Inr r \<Rightarrow> Inr (Some r))"
  using assms(2,6-)
proof (induction ws arbitrary: s wlv)
  case Nil
  then show ?case
    by (simp add: returned_def the_objs_def the_dicts_Nil)
next
  case (Cons word rest)
  let ?s1 = "s\<lparr>cells := (cells s)(wl \<mapsto> Strs (wlv @ [word]))\<rparr>"
  let ?name = "str_join (wlv @ [word])"
  have ap: "append_str wl word s = Inr ?s1"
    using Cons.prems(5) by (rule append_str_cell)
  have u1: "unchanged s0 ?s1"
    using Cons.prems(1) append_str_frame [OF ap] by (rule unchanged_local) (simp add: assms(4))
  have c1: "cells ?s1 wl = Some (Strs (wlv @ [word]))" "cells ?s1 m = Some (Objs [])"
    "m < lim ?s1" "wl < lim ?s1"
    using Cons.prems assms(5) by simp_all
  obtain r2 s2 where am: "append_matches_st d ?name cands m ?s1 = (r2, s2)"
    by (cases "append_matches_st d ?name cands m ?s1")
  have f2: "unchanged_but {m} ?s1 s2"
    using append_matches_st_frame [of m ?s1 d ?name cands] am by simp
  have u2: "unchanged s0 s2"
    using u1 f2 by (rule unchanged_local) (simp add: assms(3))
  have c2: "cells s2 wl = Some (Strs (wlv @ [word]))" "m < lim s2" "wl < lim s2"
    using f2 c1 assms(5) by (auto simp add: unchanged_but_def)
  note sim = append_matches_st_sim [OF assms(1) u1 assms(3) c1(3) c1(2) the_dicts_Nil,
      of d ?name]
  have unf: "match_words_st d cands m wl (word # rest) s =
      (case r2 of
         Inl e \<Rightarrow> (Inl e, s2)
       | Inr _ \<Rightarrow>
           (case cells s2 m of
              Some (Objs matched) \<Rightarrow>
                if matched \<noteq> [] then (Inr m, s2) else match_words_st d cands m wl rest s2
            | _ \<Rightarrow> (Inl TypeError, s2)))"
    using ap c1(1) am by (simp add: Let_def split: sum.splits)
  show ?case
  proof (cases "append_matches d ?name cobs []")
    case (Inl e)
    with sim am have "r2 = Inl e" by simp
    with Inl show ?thesis
      unfolding unf by (simp add: returned_def)
  next
    case (Inr r)
    with sim am obtain rs where rs: "r2 = Inr ()" "cells s2 m = Some (Objs rs)"
      "the_dicts s0 rs = Some r"
      by auto
    have e: "r = [] \<longleftrightarrow> rs = []"
      using rs(3) by (rule the_dicts_Nil_iff)
    show ?thesis
    proof (cases "rs = []")
      case True
      with e have "r = []" by simp
      have "returned (match_words_st d cands m wl rest s2) =
          (case match_words d cobs [] (wlv @ [word]) rest of Inl e \<Rightarrow> Inl e | Inr r \<Rightarrow> Inr (Some r))"
        using u2 c2(2,3) _ c2(1) by (rule Cons.IH) (simp add: rs(2) True)
      then show ?thesis
        using Inr \<open>r = []\<close> True unfolding unf by (simp add: rs)
    next
      case False
      with e have "r \<noteq> []" by simp
      have "the_objs s2 m = Some r"
        using c2(2) rs(2) the_dicts_unchanged [OF u2 rs(3)] by (simp add: the_objs_def)
      then show ?thesis
        using Inr \<open>r \<noteq> []\<close> False unfolding unf by (simp add: rs returned_def)
    qed
  qed
qed

lemma new_unchanged: "new cl s = (r, s') \<Longrightarrow> unchanged s s'"
  using new_frame [of cl s r s' "{}"] by (simp add: unchanged_empty)

lemma returned_new:
  assumes "the_dicts s as = Some obs"
  shows "returned (let (r, s') = new (Objs as) s in (Inr r, s')) = Inr (Some obs)"
proof -
  obtain r s' where n: "new (Objs as) s = (r, s')"
    by (cases "new (Objs as) s")
  from new_cell [OF n] have "r < lim s'" "cells s' r = Some (Objs as)" by auto
  moreover have "the_dicts s' as = Some obs"
    using new_unchanged [OF n] assms by (rule the_dicts_unchanged)
  ultimately show ?thesis
    by (simp add: n returned_def the_objs_def)
qed

lemma lookup_list_objs:
  assumes "cx key = Some a" and "the_objs s a = Some obs"
  obtains as where "lookup_list s cx key = Inr as" "the_dicts s as = Some obs"
proof -
  from assms(2) obtain as where "cells s a = Some (Objs as)" "the_dicts s as = Some obs"
    by (rule the_objsE)
  with assms(1) that show ?thesis
    by (simp add: lookup_list_def)
qed

lemma match_object_st_sim:
  assumes "snapshot s c = Some ctx"
  shows "returned (match_object_st d identifier c s) =
     (case match_object d identifier ctx of Inl e \<Rightarrow> Inl e | Inr r \<Rightarrow> Inr (Some r))"
proof -
  from assms obtain cx u r e us t where h:
    "c < lim s" "cells s c = Some (Context cx)"
    "cx ''user'' = Some u" "cx ''room'' = Some r" "cx ''exits'' = Some e"
    "cx ''users'' = Some us" "cx ''things'' = Some t"
    "the_dict s u = Some (user ctx)" "the_dict s r = Some (room ctx)"
    "the_objs s e = Some (exits ctx)" "the_objs s us = Some (users ctx)"
    "the_objs s t = Some (things ctx)"
    by (rule snapshotE)
  obtain es where es: "lookup_list s cx ''exits'' = Inr es" "the_dicts s es = Some (exits ctx)"
    using h(5,10) by (rule lookup_list_objs)
  obtain uss where uss: "lookup_list s cx ''users'' = Inr uss" "the_dicts s uss = Some (users ctx)"
    using h(6,11) by (rule lookup_list_objs)
  obtain ts where ts: "lookup_list s cx ''things'' = Inr ts" "the_dicts s ts = Some (things ctx)"
    using h(7,12) by (rule lookup_list_objs)
  let ?cands = "[u, r] @ es @ uss @ ts"
  have lu: "lookup_obj cx ''user'' = Inr u" "lookup_obj cx ''room'' = Inr r"
    using h(3,4) by (simp_all add: lookup_obj_def)
  have cs: "candidate_objects_st s cx = Inr ?cands"
    by (simp add: candidate_objects_st_def lu es uss ts)
  have du: "the_dicts s [u] = Some [user ctx]" and dr: "the_dicts s [r] = Some [room ctx]"
    using h(8,9) by (simp_all add: the_dicts_Cons the_dicts_Nil)
  have dc: "the_dicts s ?cands = Some (candidate_objects ctx)"
    unfolding candidate_objects_def
    by (intro the_dicts_append es uss ts) (simp add: the_dicts_Cons the_dicts_Nil h(8,9))
  show ?thesis
  proof (cases "str_lower (str_strip identifier) = []")
    case True
    then show ?thesis
      using returned_new [OF the_dicts_Nil, of s]
      by (simp add: match_object_st_def match_object_def)
  next
    case ne: False
    show ?thesis
    proof (cases "str_split (str_lower (str_strip identifier))")
      case Nil
      with ne show ?thesis
        by (simp add: match_object_st_def match_object_def returned_def)
    next
      case (Cons w0 ws)
      consider (usr) "w0 \<in> set (USER_ALIASES d)"
        | (rm) "w0 \<notin> set (USER_ALIASES d)" "w0 \<in> set (ROOM_ALIASES d)"
        | (ident) "w0 \<notin> set (USER_ALIASES d)" "w0 \<notin> set (ROOM_ALIASES d)" "MATCH_OBJECT_ID w0"
        | (name) "w0 \<notin> set (USER_ALIASES d)" "w0 \<notin> set (ROOM_ALIASES d)" "\<not> MATCH_OBJECT_ID w0"
        by blast
      then show ?thesis
      proof cases
        case usr
        with ne Cons show ?thesis
          using returned_new [OF du]
          by (simp add: match_object_st_def match_object_def h(2) lu)
      next
        case rm
        with ne Cons show ?thesis
          using returned_new [OF dr]
          by (simp add: match_object_st_def match_object_def h(2) lu)
      next
        case ident
        show ?thesis
        proof (cases "py_int (tl w0)")
          case (Inl e)
          with ne Cons ident show ?thesis
            by (simp add: match_object_st_def match_object_def h(2) cs returned_def)
        next
          case (Inr n)
          note sim = with_id_st_sim [OF dc, of n]
          show ?thesis
          proof (cases "with_id n (candidate_objects ctx)")
            case (Inl e)
            with sim have "with_id_st n ?cands s = Inl e" by simp
            with ne Cons ident Inl \<open>py_int (tl w0) = Inr n\<close> show ?thesis
              by (simp add: match_object_st_def match_object_def h(2) cs returned_def)
          next
            case (Inr found)
            with sim obtain rs where rs: "with_id_st n ?cands s = Inr rs"
              "the_dicts s rs = Some found"
              by auto
            with ne Cons ident Inr \<open>py_int (tl w0) = Inr n\<close> show ?thesis
              using returned_new [OF rs(2)]
              by (simp add: match_object_st_def match_object_def h(2) cs)
          qed
        qed
      next
        case name
        obtain m s1 where n1: "new (Objs []) s = (m, s1)"
          by (cases "new (Objs []) s")
        obtain wl s2 where n2: "new (Strs []) s1 = (wl, s2)"
          by (cases "new (Strs []) s1")
        from new_cell [OF n1] new_cell [OF n2]
        have a: "m = lim s" "wl = Suc (lim s)" "lim s2 = Suc (Suc (lim s))"
          "cells s2 wl = Some (Strs [])"
          by auto
        have m2: "cells s2 m = Some (Objs [])"
          using n1 n2 by (auto simp add: new_def)
        have u2: "unchanged s s2"
          using new_unchanged [OF n1] new_unchanged [OF n2]
          by (auto simp add: unchanged_def)
        have "returned (match_words_st d ?cands m wl (w0 # ws) s2) =
            (case match_words d (candidate_objects ctx) [] [] (w0 # ws) of
               Inl e \<Rightarrow> Inl e | Inr r \<Rightarrow> Inr (Some r))"
          using dc u2 _ _ _ _ _ m2 a(4)
          by (rule match_words_st_sim) (simp_all add: a)
        with ne Cons name show ?thesis
          by (simp add: match_object_st_def match_object_def h(2) cs n1 n2
              del: match_words_st.simps match_words.simps)
      qed
    qed
  qed
qed

text \<open>
  Claim C9. Run on a store, \<open>match_object\<close> and \<open>matches_name\<close> leave every cell that
  was allocated before the call as it was: they only allocate new lists and append to
  lists of their own. So the context still reads as the same snapshot, with the same
  user, room, exits, users and things, and the object given to \<open>matches_name\<close> is the
  same object afterwards. What a call returns is what the function of the identifier
  and the snapshot (of the name and the object) returns, so two calls on equal inputs
  return equal results, whatever else the two stores hold.
\<close>

theorem resolver_leaves_store:
  "unchanged s (snd (match_object_st d identifier c s)) \<and>
   unchanged s (snd (matches_name_st d name a s)) \<and>
   (\<forall>ctx. snapshot s c = Some ctx \<longrightarrow>
      snapshot (snd (match_object_st d identifier c s)) c = Some ctx \<and>
      returned (match_object_st d identifier c s) =
        (case match_object d identifier ctx of Inl e \<Rightarrow> Inl e | Inr r \<Rightarrow> Inr (Some r)) \<and>
      (\<forall>s2 c2. snapshot s2 c2 = Some ctx \<longrightarrow>
         returned (match_object_st d identifier c2 s2) =
         returned (match_object_st d identifier c s))) \<and>
   (\<forall>ob. the_dict s a = Some ob \<longrightarrow>
      the_dict (snd (matches_name_st d name a s)) a = Some ob \<and>
      fst (matches_name_st d name a s) = matches_name d name ob \<and>
      (\<forall>s2 a2. the_dict s2 a2 = Some ob \<longrightarrow>
         fst (matches_name_st d name a2 s2) = fst (matches_name_st d name a s)))"
proof (intro conjI allI impI)
  show u: "unchanged s (snd (match_object_st d identifier c s))"
    by (rule match_object_st_frame)
  show v: "unchanged s (snd (matches_name_st d name a s))"
    using matches_name_st_frame [of "{}" s d name a] by (simp add: unchanged_empty)
  {
    fix ctx assume h: "snapshot s c = Some ctx"
    show "snapshot (snd (match_object_st d identifier c s)) c = Some ctx"
      using u h by (rule snapshot_unchanged)
    show "returned (match_object_st d identifier c s) =
        (case match_object d identifier ctx of Inl e \<Rightarrow> Inl e | Inr r \<Rightarrow> Inr (Some r))"
      using h by (rule match_object_st_sim)
    fix s2 c2 assume "snapshot s2 c2 = Some ctx"
    then show "returned (match_object_st d identifier c2 s2) =
        returned (match_object_st d identifier c s)"
      by (simp add: match_object_st_sim h)
  }
  {
    fix ob assume h: "the_dict s a = Some ob"
    show "the_dict (snd (matches_name_st d name a s)) a = Some ob"
      using v h by (rule the_dict_unchanged)
    show "fst (matches_name_st d name a s) = matches_name d name ob"
      using h by (rule matches_name_st_sim)
    fix s2 a2 assume "the_dict s2 a2 = Some ob"
    then show "fst (matches_name_st d name a2 s2) = fst (matches_name_st d name a s)"
      by (simp add: matches_name_st_sim h)
  }
qed

lemma demo_snapshot: "snapshot demo_store 10 = Some demo_context"
  by (simp add: snapshot_def demo_store_def the_dict_def the_objs_def the_dicts_def
      demo_context_def)

lemma demo_dict: "the_dict demo_store 5 = Some (mk_obj 42 ''Lamp'' [])"
  by (simp add: demo_store_def the_dict_def)

theorem resolver_leaves_store_witness:
  "snapshot demo_store 10 = Some demo_context \<and>
   unchanged demo_store (snd (match_object_st demo_defaults ''lamp'' 10 demo_store)) \<and>
   snapshot (snd (match_object_st demo_defaults ''lamp'' 10 demo_store)) 10 = Some demo_context \<and>
   returned (match_object_st demo_defaults ''lamp'' 10 demo_store) =
     Inr (Some [mk_obj 42 ''Lamp'' [], mk_obj 7 ''Lamp'' []]) \<and>
   the_dict demo_store 5 = Some (mk_obj 42 ''Lamp'' []) \<and>
   the_dict (snd (matches_name_st demo_defaults ''LAMP'' 5 demo_store)) 5 = Some (mk_obj 42 ''Lamp'' []) \<and>
   fst (matches_name_st demo_defaults ''LAMP'' 5 demo_store) = Inr True"
proof -
  note t = resolver_leaves_store [of demo_store demo_defaults "''lamp''" 10 "''LAMP''" 5]
  have m: "matches_name demo_defaults ''LAMP'' (mk_obj 42 ''Lamp'' []) = Inr True"
    by (simp add: matches_name_named mk_obj_named mk_obj_matches lower_eval)
  from t demo_snapshot demo_dict demo_match_lamp m show ?thesis
    by simp
qed

end
